theory Spec2Isabelle
  imports Main "HOL-Library.AList" "HOL-Library.Sublist"
begin

section \<open>The directed graph of \<^verbatim>\<open>util/digraph.py\<close>\<close>

text \<open>
  A Python \<^verbatim>\<open>dict\<close> is an association list with distinct keys, in insertion order:
  \<open>map_of\<close> looks a key up, a new key goes to the end, \<open>AList.map_entry\<close> changes the
  value stored at a key in place and \<open>AList.delete\<close> removes a key. A Python \<^verbatim>\<open>set\<close>
  is a list without repetitions. Python leaves the iteration order of a set open; the
  model iterates in insertion order, and every general theorem below is stated for all
  graphs that satisfy the representation invariant, hence for every order in which the
  members of a set may be listed.
\<close>

type_synonym 'a pyset = "'a list"
type_synonym 'a pydict = "('a \<times> 'a pyset) list"

definition set_add :: "'a \<Rightarrow> 'a pyset \<Rightarrow> 'a pyset" where
  "set_add y s = (if y \<in> set s then s else s @ [y])"

definition set_discard :: "'a \<Rightarrow> 'a pyset \<Rightarrow> 'a pyset" where
  "set_discard x s = removeAll x s"

record 'a digraph =
  fwd :: "'a pydict"
  bck :: "'a pydict"

text \<open>\<^verbatim>\<open>Digraph.__init__\<close>\<close>

definition Digraph :: "'a digraph" where
  "Digraph = \<lparr>fwd = [], bck = []\<rparr>"

text \<open>
  The two statements \<^verbatim>\<open>if x not in d: d[x] = set()\<close> and \<^verbatim>\<open>d[x].add(y)\<close>,
  which \<^verbatim>\<open>add_edge\<close> runs once on each mapping.
\<close>

definition dict_add :: "'a \<Rightarrow> 'a \<Rightarrow> 'a pydict \<Rightarrow> 'a pydict" where
  "dict_add x y d =
     (let d1 = (if map_of d x = None then d @ [(x, [])] else d)
      in AList.map_entry x (set_add y) d1)"

definition add_edge :: "'a digraph \<Rightarrow> 'a \<Rightarrow> 'a \<Rightarrow> 'a digraph" where
  "add_edge g x y = \<lparr>fwd = dict_add x y (fwd g), bck = dict_add y x (bck g)\<rparr>"

definition edges_to :: "'a digraph \<Rightarrow> 'a \<Rightarrow> 'a pyset" where
  "edges_to g x = (case map_of (bck g) x of Some s \<Rightarrow> s | None \<Rightarrow> [])"

definition edges_from :: "'a digraph \<Rightarrow> 'a \<Rightarrow> 'a pyset" where
  "edges_from g x = (case map_of (fwd g) x of Some s \<Rightarrow> s | None \<Rightarrow> [])"

text \<open>
  The loop \<^verbatim>\<open>for y in ys: d[y].discard(x)\<close>. The subscript \<^verbatim>\<open>d[y]\<close> raises
  \<^verbatim>\<open>KeyError\<close> when \<open>y\<close> is not a key: the loop stops there, and the result carries
  the missing key.
\<close>

fun discard_each :: "'a \<Rightarrow> 'a list \<Rightarrow> 'a pydict \<Rightarrow> 'a option \<times> 'a pydict" where
  "discard_each x [] d = (None, d)"
| "discard_each x (y # ys) d =
     (case map_of d y of
        None \<Rightarrow> (Some y, d)
      | Some s \<Rightarrow> discard_each x ys (AList.map_entry y (set_discard x) d))"

text \<open>
  \<^verbatim>\<open>del_edges_from\<close> and \<^verbatim>\<open>del_edges_to\<close>: the first component is \<open>None\<close> on a
  normal return and \<open>Some k\<close> when \<^verbatim>\<open>KeyError(k)\<close> was raised, in which case the
  final \<^verbatim>\<open>del\<close> has not run.
\<close>

definition del_edges_from :: "'a digraph \<Rightarrow> 'a \<Rightarrow> 'a option \<times> 'a digraph" where
  "del_edges_from g x =
     (case map_of (fwd g) x of
        None \<Rightarrow> (None, g)
      | Some ys \<Rightarrow>
          (case discard_each x ys (bck g) of
             (Some k, b) \<Rightarrow> (Some k, g\<lparr>bck := b\<rparr>)
           | (None, b) \<Rightarrow> (None, \<lparr>fwd = AList.delete x (fwd g), bck = b\<rparr>)))"

definition del_edges_to :: "'a digraph \<Rightarrow> 'a \<Rightarrow> 'a option \<times> 'a digraph" where
  "del_edges_to g x =
     (case map_of (bck g) x of
        None \<Rightarrow> (None, g)
      | Some ys \<Rightarrow>
          (case discard_each x ys (fwd g) of
             (Some k, f) \<Rightarrow> (Some k, g\<lparr>fwd := f\<rparr>)
           | (None, f) \<Rightarrow> (None, \<lparr>fwd = f, bck = AList.delete x (bck g)\<rparr>)))"

text \<open>
  The nested \<^verbatim>\<open>dfs\<close> of \<^verbatim>\<open>subgraph_paths_to\<close>. Its two closure variables, the
  graph under construction and the \<^verbatim>\<open>seen\<close> set, are passed along and returned;
  \<open>sub_loop\<close> is the \<^verbatim>\<open>for y in self.bck[x]\<close> loop.
\<close>

function sub_dfs :: "'a pydict \<Rightarrow> 'a \<Rightarrow> 'a digraph \<times> 'a set \<Rightarrow> 'a digraph \<times> 'a set"
  and sub_loop :: "'a pydict \<Rightarrow> 'a \<Rightarrow> 'a list \<Rightarrow> 'a digraph \<times> 'a set \<Rightarrow> 'a digraph \<times> 'a set"
where
  "sub_dfs b x (graph, seen) =
     (if x \<in> seen then (graph, seen)
      else (case map_of b x of
              None \<Rightarrow> (graph, insert x seen)
            | Some ys \<Rightarrow> sub_loop b x ys (graph, insert x seen)))"
| "sub_loop b x [] s = s"
| "sub_loop b x (y # ys) (graph, seen) =
     sub_loop b x ys (sub_dfs b y (add_edge graph y x, seen))"
  by pat_completeness auto

lemma sub_dfs_seen_mono_partial:
  "sub_dfs_sub_loop_dom (Inl (b, x, s)) \<Longrightarrow> snd s \<subseteq> snd (sub_dfs b x s)"
  "sub_dfs_sub_loop_dom (Inr (b, x, ys, s)) \<Longrightarrow> snd s \<subseteq> snd (sub_loop b x ys s)"
proof (induction b x s and b x ys s rule: sub_dfs_sub_loop.pinduct)
  case (1 b x graph seen)
  then show ?case
    by (auto simp: sub_dfs.psimps split: option.splits)
next
  case (2 b x s)
  then show ?case by (simp add: sub_loop.psimps)
next
  case (3 b x y ys graph seen)
  then show ?case
    by (auto simp: sub_loop.psimps split: prod.splits)
qed

text \<open>
  Termination: every call of \<open>sub_dfs\<close> that enters the loop marks a key of the
  dictionary that was not marked before, and the loop consumes its list.
\<close>

termination sub_dfs
proof (relation "(\<lambda>v. case v of Inl (b, x, s) \<Rightarrow> card (fst ` set b - snd s)
                              | Inr (b, x, ys, s) \<Rightarrow> card (fst ` set b - snd s))
                 <*mlex*> measure (\<lambda>v. case v of Inl _ \<Rightarrow> 0 | Inr (b, x, ys, s) \<Rightarrow> Suc (length ys))")
  let ?R = "(\<lambda>v. case v of Inl (b, x, s) \<Rightarrow> card (fst ` set b - snd s)
                              | Inr (b, x, ys, s) \<Rightarrow> card (fst ` set b - snd s))
             <*mlex*> measure (\<lambda>v. case v of Inl _ \<Rightarrow> 0
                                           | Inr (b :: 'a pydict, x :: 'a, ys :: 'a list, s :: 'a digraph \<times> 'a set) \<Rightarrow> Suc (length ys))"
  show "wf ?R"
    by (simp add: wf_mlex)
  fix b :: "'a pydict" and x y :: 'a and graph :: "'a digraph" and seen ys
  {
    assume "x \<notin> seen" "map_of b x = Some ys"
    then have "x \<in> fst ` set b" by (force dest: map_of_SomeD)
    then have "card (fst ` set b - insert x seen) < card (fst ` set b - seen)"
      using \<open>x \<notin> seen\<close> by (intro psubset_card_mono) auto
    then show "(Inr (b, x, ys, graph, insert x seen), Inl (b, x, graph, seen)) \<in> ?R"
      by (simp add: mlex_less)
  }
  show "(Inl (b, y, add_edge graph y x, seen), Inr (b, x, y # ys, graph, seen)) \<in> ?R"
    by (simp add: mlex_leq)
  {
    assume "sub_dfs_sub_loop_dom (Inl (b, y, add_edge graph y x, seen))"
    from sub_dfs_seen_mono_partial(1)[OF this]
    have "seen \<subseteq> snd (sub_dfs b y (add_edge graph y x, seen))" by simp
    then have "card (fst ` set b - snd (sub_dfs b y (add_edge graph y x, seen)))
                 \<le> card (fst ` set b - seen)"
      by (intro card_mono) auto
    then show "(Inr (b, x, ys, sub_dfs b y (add_edge graph y x, seen)),
                Inr (b, x, y # ys, graph, seen)) \<in> ?R"
      by (simp add: mlex_leq)
  }
qed

declare sub_dfs.simps [simp del]

text \<open>\<^verbatim>\<open>subgraph_paths_to\<close>: a fresh graph, an empty \<^verbatim>\<open>seen\<close>, \<^verbatim>\<open>dfs(x)\<close>.\<close>

definition subgraph_paths_to :: "'a digraph \<Rightarrow> 'a \<Rightarrow> 'a digraph" where
  "subgraph_paths_to g x = fst (sub_dfs (bck g) x (Digraph, {}))"

text \<open>
  The nested generator \<^verbatim>\<open>dfs\<close> of \<^verbatim>\<open>topo_sort_fwd\<close> and \<^verbatim>\<open>topo_sort_bck\<close>,
  which differ only in the mapping \<open>m\<close> they follow (\<^verbatim>\<open>self.bck\<close> for the forward
  sort, \<^verbatim>\<open>self.fwd\<close> for the backward one). The state is the \<^verbatim>\<open>seen\<close> set and the
  list of values yielded so far; \<open>topo_loop\<close> is a loop
  \<^verbatim>\<open>for y in ys: yield from dfs(y)\<close>.
\<close>

function topo_dfs :: "'a pydict \<Rightarrow> 'a \<Rightarrow> 'a set \<times> 'a list \<Rightarrow> 'a set \<times> 'a list"
  and topo_loop :: "'a pydict \<Rightarrow> 'a list \<Rightarrow> 'a set \<times> 'a list \<Rightarrow> 'a set \<times> 'a list"
where
  "topo_dfs m x (seen, out) =
     (if x \<in> seen then (seen, out)
      else (case map_of m x of
              None \<Rightarrow> (insert x seen, out @ [x])
            | Some ys \<Rightarrow>
                (case topo_loop m ys (insert x seen, out) of
                   (seen', out') \<Rightarrow> (seen', out' @ [x]))))"
| "topo_loop m [] s = s"
| "topo_loop m (y # ys) s = topo_loop m ys (topo_dfs m y s)"
  by pat_completeness auto

lemma topo_dfs_seen_mono_partial:
  "topo_dfs_topo_loop_dom (Inl (m, x, s)) \<Longrightarrow> fst s \<subseteq> fst (topo_dfs m x s)"
  "topo_dfs_topo_loop_dom (Inr (m, ys, s)) \<Longrightarrow> fst s \<subseteq> fst (topo_loop m ys s)"
proof (induction m x s and m ys s rule: topo_dfs_topo_loop.pinduct)
  case (1 m x seen out)
  then show ?case
    by (auto simp: topo_dfs.psimps split: option.splits prod.splits)
next
  case (2 m s)
  then show ?case by (simp add: topo_loop.psimps)
next
  case (3 m y ys s)
  then show ?case
    by (auto simp: topo_loop.psimps)
qed

termination topo_dfs
proof (relation "(\<lambda>v. case v of Inl (m, x, s) \<Rightarrow> card (fst ` set m - fst s)
                              | Inr (m, ys, s) \<Rightarrow> card (fst ` set m - fst s))
                 <*mlex*> measure (\<lambda>v. case v of Inl _ \<Rightarrow> 0 | Inr (m, ys, s) \<Rightarrow> Suc (length ys))")
  let ?R = "(\<lambda>v. case v of Inl (m, x, s) \<Rightarrow> card (fst ` set m - fst s)
                              | Inr (m, ys, s) \<Rightarrow> card (fst ` set m - fst s))
             <*mlex*> measure (\<lambda>v. case v of Inl _ \<Rightarrow> 0
                                           | Inr (m :: 'a pydict, ys :: 'a list, s :: 'a set \<times> 'a list) \<Rightarrow> Suc (length ys))"
  show "wf ?R"
    by (simp add: wf_mlex)
  fix m :: "'a pydict" and x y :: 'a and out :: "'a list" and seen ys and s :: "'a set \<times> 'a list"
  {
    assume "x \<notin> seen" "map_of m x = Some ys"
    then have "x \<in> fst ` set m" by (force dest: map_of_SomeD)
    then have "card (fst ` set m - insert x seen) < card (fst ` set m - seen)"
      using \<open>x \<notin> seen\<close> by (intro psubset_card_mono) auto
    then show "(Inr (m, ys, insert x seen, out), Inl (m, x, seen, out)) \<in> ?R"
      by (simp add: mlex_less)
  }
  show "(Inl (m, y, s), Inr (m, y # ys, s)) \<in> ?R"
    by (simp add: mlex_leq)
  {
    assume "topo_dfs_topo_loop_dom (Inl (m, y, s))"
    from topo_dfs_seen_mono_partial(1)[OF this]
    have "card (fst ` set m - fst (topo_dfs m y s)) \<le> card (fst ` set m - fst s)"
      by (intro card_mono) auto
    then show "(Inr (m, ys, topo_dfs m y s), Inr (m, y # ys, s)) \<in> ?R"
      by (simp add: mlex_leq)
  }
qed

declare topo_dfs.simps [simp del]

text \<open>
  \<^verbatim>\<open>topo_sort_fwd\<close> and \<^verbatim>\<open>topo_sort_bck\<close>: two loops over the keys of the two
  mappings share one \<^verbatim>\<open>seen\<close> set. The callers in \<^verbatim>\<open>plugins/__init__.py\<close> run
  the generator over a graph that nothing changes while it is consumed, so the list of
  all yielded values stands for the generator.
\<close>

definition topo_sort_fwd :: "'a digraph \<Rightarrow> 'a list" where
  "topo_sort_fwd g =
     snd (topo_loop (bck g) (map fst (bck g)) (topo_loop (bck g) (map fst (fwd g)) ({}, [])))"

definition topo_sort_bck :: "'a digraph \<Rightarrow> 'a list" where
  "topo_sort_bck g =
     snd (topo_loop (fwd g) (map fst (fwd g)) (topo_loop (fwd g) (map fst (bck g)) ({}, [])))"

definition lookup :: "'a pydict \<Rightarrow> 'a \<Rightarrow> 'a list" where
  "lookup d x = (case map_of d x of Some s \<Rightarrow> s | None \<Rightarrow> [])"

definition vertices :: "'a digraph \<Rightarrow> 'a set" where
  "vertices g = fst ` set (fwd g) \<union> fst ` set (bck g)"

definition edges :: "'a digraph \<Rightarrow> ('a \<times> 'a) set" where
  "edges g = {(x, y). y \<in> set (edges_from g x)}"

definition preds_of :: "'a pydict \<Rightarrow> ('a \<times> 'a) set" where
  "preds_of m = {(y, x). y \<in> set (lookup m x)}"

definition dict_ok :: "'a pydict \<Rightarrow> bool" where
  "dict_ok d \<longleftrightarrow> distinct (map fst d) \<and> (\<forall>(k, s)\<in>set d. distinct s)"

definition digraph_inv :: "'a digraph \<Rightarrow> bool" where
  "digraph_inv g \<longleftrightarrow>
     dict_ok (fwd g) \<and> dict_ok (bck g) \<and>
     (\<forall>(x, ys)\<in>set (fwd g). \<forall>y\<in>set ys. x \<in> set (edges_to g y)) \<and>
     (\<forall>(y, xs)\<in>set (bck g). \<forall>x\<in>set xs. y \<in> set (edges_from g x))"

definition no_isolated :: "'a digraph \<Rightarrow> bool" where
  "no_isolated g \<longleftrightarrow> (\<forall>x\<in>vertices g. edges_from g x \<noteq> [] \<or> edges_to g x \<noteq> [])"

lemma edges_to_lookup: "edges_to g = lookup (bck g)"
  by (simp add: edges_to_def lookup_def fun_eq_iff)

lemma edges_from_lookup: "edges_from g = lookup (fwd g)"
  by (simp add: edges_from_def lookup_def fun_eq_iff)

lemma lookup_Some: "map_of d x = Some s \<Longrightarrow> lookup d x = s"
  by (simp add: lookup_def)

lemma lookup_None: "map_of d x = None \<Longrightarrow> lookup d x = []"
  by (simp add: lookup_def)

lemma in_lookupD: "y \<in> set (lookup d x) \<Longrightarrow> \<exists>s. map_of d x = Some s \<and> y \<in> set s"
  by (cases "map_of d x") (auto simp: lookup_def)

lemma edges_preds_of: "edges g = (preds_of (fwd g))\<inverse>"
  by (auto simp: edges_def preds_of_def edges_from_lookup)

lemma ball_dict:
  assumes "distinct (map fst d)"
  shows "(\<forall>(x, ys)\<in>set d. \<forall>y\<in>set ys. P x y) \<longleftrightarrow> (\<forall>x y. y \<in> set (lookup d x) \<longrightarrow> P x y)"
proof
  assume L: "\<forall>(x, ys)\<in>set d. \<forall>y\<in>set ys. P x y"
  show "\<forall>x y. y \<in> set (lookup d x) \<longrightarrow> P x y"
  proof (intro allI impI)
    fix x y assume "y \<in> set (lookup d x)"
    then obtain s where "map_of d x = Some s" "y \<in> set s" by (blast dest: in_lookupD)
    then have "(x, s) \<in> set d" by (simp add: map_of_SomeD)
    with L \<open>y \<in> set s\<close> show "P x y" by blast
  qed
next
  assume R: "\<forall>x y. y \<in> set (lookup d x) \<longrightarrow> P x y"
  show "\<forall>(x, ys)\<in>set d. \<forall>y\<in>set ys. P x y"
  proof (clarify)
    fix x ys y assume "(x, ys) \<in> set d" "y \<in> set ys"
    then have "map_of d x = Some ys" using assms by simp
    then have "lookup d x = ys" by (rule lookup_Some)
    with R \<open>y \<in> set ys\<close> show "P x y" by blast
  qed
qed

lemma digraph_inv_alt:
  "digraph_inv g \<longleftrightarrow> dict_ok (fwd g) \<and> dict_ok (bck g) \<and> preds_of (bck g) = (preds_of (fwd g))\<inverse>"
proof (cases "dict_ok (fwd g) \<and> dict_ok (bck g)")
  case False
  then show ?thesis by (auto simp: digraph_inv_def)
next
  case True
  then have df: "distinct (map fst (fwd g))" and db: "distinct (map fst (bck g))"
    by (auto simp: dict_ok_def)
  have "preds_of (bck g) = (preds_of (fwd g))\<inverse> \<longleftrightarrow>
        (\<forall>x y. y \<in> set (lookup (fwd g) x) \<longrightarrow> x \<in> set (lookup (bck g) y)) \<and>
        (\<forall>y x. x \<in> set (lookup (bck g) y) \<longrightarrow> y \<in> set (lookup (fwd g) x))"
    unfolding preds_of_def by auto
  then show ?thesis
    using True unfolding digraph_inv_def ball_dict[OF df] ball_dict[OF db]
      edges_to_lookup edges_from_lookup
    by simp
qed

lemma edges_preds_bck: "digraph_inv g \<Longrightarrow> edges g = preds_of (bck g)"
  by (simp add: digraph_inv_alt edges_preds_of)

lemma set_set_add: "set (set_add y s) = insert y (set s)"
  by (auto simp: set_add_def)

lemma distinct_set_add: "distinct s \<Longrightarrow> distinct (set_add y s)"
  by (auto simp: set_add_def)

lemma map_of_dict_add:
  "map_of (dict_add x y d) = (map_of d)(x \<mapsto> set_add y (lookup d x))"
proof (cases "map_of d x")
  case None
  then show ?thesis
    by (auto simp: dict_add_def map_of_map_entry fun_eq_iff lookup_def map_add_def
        split: option.splits)
next
  case (Some s)
  then show ?thesis
    by (auto simp: dict_add_def map_of_map_entry fun_eq_iff lookup_def)
qed

lemma lookup_dict_add: "lookup (dict_add x y d) = (lookup d)(x := set_add y (lookup d x))"
  by (auto simp: lookup_def map_of_dict_add fun_eq_iff)

lemma keys_dict_add: "fst ` set (dict_add x y d) = insert x (fst ` set d)"
proof (cases "map_of d x")
  case None
  then show ?thesis by (simp add: dict_add_def dom_map_entry)
next
  case (Some s)
  then have "x \<in> fst ` set d" by (force dest: map_of_SomeD)
  with Some show ?thesis by (auto simp: dict_add_def dom_map_entry)
qed

lemma preds_of_dict_add: "preds_of (dict_add x y d) = insert (y, x) (preds_of d)"
  by (auto simp: preds_of_def lookup_dict_add set_set_add split: if_splits)

lemma dict_ok_values:
  assumes "dict_ok d" "map_of d k = Some s"
  shows "distinct s"
proof -
  have "(k, s) \<in> set d" using assms(2) by (rule map_of_SomeD)
  with assms(1) show ?thesis unfolding dict_ok_def by blast
qed

lemma dict_ok_lookup:
  assumes "dict_ok d"
  shows "distinct (lookup d k)"
proof (cases "map_of d k")
  case None
  then show ?thesis by (simp add: lookup_def)
next
  case (Some s)
  from dict_ok_values[OF assms Some] Some show ?thesis by (simp add: lookup_def)
qed

lemma dict_okI:
  assumes "distinct (map fst d)" and v: "\<And>k s. map_of d k = Some s \<Longrightarrow> distinct s"
  shows "dict_ok d"
  unfolding dict_ok_def
proof (intro conjI ballI)
  show "distinct (map fst d)" by fact
  fix p assume "p \<in> set d"
  then have "map_of d (fst p) = Some (snd p)" using assms(1) by simp
  from v[OF this] show "case p of (k, s) \<Rightarrow> distinct s" by (simp add: case_prod_beta)
qed

lemma dict_ok_dict_add:
  assumes ok: "dict_ok d"
  shows "dict_ok (dict_add x y d)"
proof (rule dict_okI)
  from ok have dd: "distinct (map fst d)" by (simp add: dict_ok_def)
  show "distinct (map fst (dict_add x y d))"
  proof (cases "map_of d x")
    case None
    then have "x \<notin> fst ` set d" by (simp add: map_of_eq_None_iff)
    with dd have "distinct (map fst (d @ [(x, [])]))" by simp
    then show ?thesis using None
      by (simp add: dict_add_def distinct_map_entry del: map_append)
  next
    case (Some s)
    then show ?thesis using dd by (simp add: dict_add_def distinct_map_entry)
  qed
  fix k s assume a: "map_of (dict_add x y d) k = Some s"
  show "distinct s"
  proof (cases "k = x")
    case True
    with a have "s = set_add y (lookup d x)" by (simp add: map_of_dict_add)
    then show ?thesis by (simp add: distinct_set_add dict_ok_lookup[OF ok])
  next
    case False
    with a have "map_of d k = Some s" by (simp add: map_of_dict_add)
    then show ?thesis by (rule dict_ok_values[OF ok])
  qed
qed

lemma digraph_inv_Digraph: "digraph_inv Digraph"
  by (simp add: digraph_inv_def Digraph_def dict_ok_def)

lemma digraph_inv_add_edge: "digraph_inv g \<Longrightarrow> digraph_inv (add_edge g x y)"
  by (auto simp: digraph_inv_alt add_edge_def preds_of_dict_add dict_ok_dict_add)

lemma edges_add_edge: "edges (add_edge g x y) = insert (x, y) (edges g)"
  by (auto simp: edges_preds_of add_edge_def preds_of_dict_add)

lemma vertices_add_edge: "vertices (add_edge g x y) = insert x (insert y (vertices g))"
  by (auto simp: vertices_def add_edge_def keys_dict_add)

lemma no_isolated_Digraph: "no_isolated Digraph"
  by (simp add: no_isolated_def vertices_def Digraph_def)



lemma set_add_nonempty: "set_add y s \<noteq> []"
  by (auto simp: set_add_def)

lemma no_isolated_add_edge: "no_isolated g \<Longrightarrow> no_isolated (add_edge g x y)"
  unfolding no_isolated_def vertices_add_edge
  by (auto simp: edges_from_lookup edges_to_lookup add_edge_def lookup_dict_add set_add_nonempty)

lemma lookup_keys: "lookup d x \<noteq> [] \<Longrightarrow> x \<in> fst ` set d"
  by (cases "map_of d x") (auto simp: lookup_def dest: map_of_SomeD intro: rev_image_eqI)

lemma edges_vertices: "digraph_inv g \<Longrightarrow> (x, y) \<in> edges g \<Longrightarrow> x \<in> vertices g \<and> y \<in> vertices g"
proof -
  assume inv: "digraph_inv g" and e: "(x, y) \<in> edges g"
  from e have "y \<in> set (lookup (fwd g) x)" by (simp add: edges_def edges_from_lookup)
  then have 1: "x \<in> fst ` set (fwd g)" by (intro lookup_keys) auto
  from e inv have "(x, y) \<in> preds_of (bck g)" by (simp add: edges_preds_bck)
  then have "x \<in> set (lookup (bck g) y)" by (simp add: preds_of_def)
  then have 2: "y \<in> fst ` set (bck g)" by (intro lookup_keys) auto
  from 1 2 show ?thesis by (simp add: vertices_def)
qed

lemma vertices_no_isolated:
  assumes "digraph_inv g" "no_isolated g"
  shows "vertices g = Field (edges g)"
proof (intro set_eqI iffI)
  fix v assume "v \<in> vertices g"
  with assms(2) have "edges_from g v \<noteq> [] \<or> edges_to g v \<noteq> []" by (simp add: no_isolated_def)
  then show "v \<in> Field (edges g)"
  proof
    assume "edges_from g v \<noteq> []"
    then obtain y where "y \<in> set (edges_from g v)" by (cases "edges_from g v") auto
    then have "(v, y) \<in> edges g" by (simp add: edges_def)
    then show ?thesis by (auto simp: Field_def)
  next
    assume "edges_to g v \<noteq> []"
    then obtain y where "y \<in> set (edges_to g v)" by (cases "edges_to g v") auto
    then have "(y, v) \<in> preds_of (bck g)" by (simp add: preds_of_def edges_to_lookup)
    then have "(y, v) \<in> edges g" using assms(1) by (simp add: edges_preds_bck)
    then show ?thesis by (auto simp: Field_def)
  qed
next
  fix v assume "v \<in> Field (edges g)"
  then show "v \<in> vertices g"
    using edges_vertices[OF assms(1)] by (auto simp: Field_def)
qed

subsection \<open>Claim C4: stored keys and incident edges\<close>

lemma del_edges_from_example:
  "del_edges_from (add_edge Digraph ''a'' ''b'') ''a'' = (None, \<lparr>fwd = [], bck = [(''b'', [])]\<rparr>)"
  by (simp add: del_edges_from_def add_edge_def Digraph_def dict_add_def set_add_def set_discard_def)

text \<open>
  C4 says that after any sequence of \<^verbatim>\<open>add_edge\<close>, \<^verbatim>\<open>del_edges_from\<close> and
  \<^verbatim>\<open>del_edges_to\<close> from the empty graph, an identity is a key of one of the two
  mappings exactly when it has an incident edge. The code keeps the two mappings inverse
  to each other (\<open>digraph_inv\<close>), but \<^verbatim>\<open>del_edges_from\<close> only discards \<open>x\<close> from each
  \<^verbatim>\<open>self.bck[y]\<close> and never deletes a key of \<^verbatim>\<open>self.bck\<close> whose set has become
  empty. After \<^verbatim>\<open>add_edge('a', 'b')\<close> and \<^verbatim>\<open>del_edges_from('a')\<close> the graph has no
  edge left, and \<^verbatim>\<open>'b'\<close> is still a key of the backward mapping: a stored vertex
  without incident edge, against the class docstring "A directed graph with no isolated
  vertices".
\<close>

theorem del_edges_from_leaves_isolated_key:
  "del_edges_from (add_edge Digraph ''a'' ''b'') ''a'' = (None, \<lparr>fwd = [], bck = [(''b'', [])]\<rparr>) \<and>
   ''b'' \<in> vertices (snd (del_edges_from (add_edge Digraph ''a'' ''b'') ''a'')) \<and>
   edges (snd (del_edges_from (add_edge Digraph ''a'' ''b'') ''a'')) = {} \<and>
   edges_to (snd (del_edges_from (add_edge Digraph ''a'' ''b'') ''a'')) ''b'' = [] \<and>
   edges_from (snd (del_edges_from (add_edge Digraph ''a'' ''b'') ''a'')) ''b'' = []"
  unfolding del_edges_from_example
  by (simp add: vertices_def edges_def edges_from_def edges_to_def)

subsection \<open>Deleting edges keeps the two mappings inverse\<close>

lemma key_has_value: "y \<in> fst ` set d \<Longrightarrow> \<exists>s. map_of d y = Some s"
  by (cases "map_of d y") (auto simp: map_of_eq_None_iff)

lemma discard_each_no_error:
  "set ys \<subseteq> fst ` set d \<Longrightarrow> fst (discard_each x ys d) = None"
proof (induction ys arbitrary: d)
  case Nil
  show ?case by simp
next
  case (Cons y ys)
  then obtain s where s: "map_of d y = Some s" using key_has_value[of y d] by auto
  have "set ys \<subseteq> fst ` set (AList.map_entry y (set_discard x) d)"
    using Cons.prems by (simp add: dom_map_entry)
  from Cons.IH[OF this] s show ?case by simp
qed

lemma discard_each_keys:
  "fst ` set (snd (discard_each x ys d)) = fst ` set d"
proof (induction ys arbitrary: d)
  case Nil
  show ?case by simp
next
  case (Cons y ys)
  show ?case
  proof (cases "map_of d y")
    case None
    then show ?thesis by simp
  next
    case (Some s)
    with Cons.IH[of "AList.map_entry y (set_discard x) d"] show ?thesis
      by (simp add: dom_map_entry)
  qed
qed

lemma discard_each_distinct:
  "distinct (map fst d) \<Longrightarrow> distinct (map fst (snd (discard_each x ys d)))"
proof (induction ys arbitrary: d)
  case Nil
  then show ?case by simp
next
  case (Cons y ys)
  show ?case
  proof (cases "map_of d y")
    case None
    then show ?thesis using Cons.prems by simp
  next
    case (Some s)
    have "distinct (map fst (AList.map_entry y (set_discard x) d))"
      using Cons.prems by (rule distinct_map_entry)
    from Cons.IH[OF this] Some show ?thesis by simp
  qed
qed

lemma discard_each_map_of:
  "set ys \<subseteq> fst ` set d \<Longrightarrow>
     map_of (snd (discard_each x ys d)) k =
       (if k \<in> set ys then map_option (removeAll x) (map_of d k) else map_of d k)"
proof (induction ys arbitrary: d)
  case Nil
  show ?case by simp
next
  case (Cons y ys)
  then obtain s where s: "map_of d y = Some s" using key_has_value[of y d] by auto
  have "set ys \<subseteq> fst ` set (AList.map_entry y (set_discard x) d)"
    using Cons.prems by (simp add: dom_map_entry)
  from Cons.IH[OF this] s show ?case
    by (auto simp: map_of_map_entry set_discard_def split: option.splits)
qed

lemma discard_each_lookup:
  "set ys \<subseteq> fst ` set d \<Longrightarrow>
     lookup (snd (discard_each x ys d)) k =
       (if k \<in> set ys then removeAll x (lookup d k) else lookup d k)"
  by (cases "map_of d k") (simp_all add: lookup_def discard_each_map_of)

lemma lookup_delete: "lookup (AList.delete x d) k = (if k = x then [] else lookup d k)"
  by (simp add: lookup_def delete_conv')

lemma lookup_in_keys: "y \<in> set (lookup d x) \<Longrightarrow> x \<in> fst ` set d"
  by (rule lookup_keys) auto

lemma preds_of_delete: "preds_of (AList.delete x f) = {(y, a). (y, a) \<in> preds_of f \<and> a \<noteq> x}"
  by (auto simp: preds_of_def lookup_delete)

lemma dict_ok_delete:
  assumes "dict_ok d"
  shows "dict_ok (AList.delete x d)"
  unfolding dict_ok_def
proof
  show "distinct (map fst (AList.delete x d))"
    using assms by (simp add: dict_ok_def distinct_delete)
  show "\<forall>(k, s)\<in>set (AList.delete x d). distinct s"
    using assms by (auto simp: dict_ok_def AList.delete_eq)
qed

lemma del_generic:
  assumes f: "dict_ok f" and b: "dict_ok b" and inv: "preds_of b = (preds_of f)\<inverse>"
    and x: "map_of f x = Some ys"
  shows "fst (discard_each x ys b) = None"
    and "dict_ok (snd (discard_each x ys b))"
    and "preds_of (snd (discard_each x ys b)) = (preds_of (AList.delete x f))\<inverse>"
proof -
  have lx: "lookup f x = ys" using x by (rule lookup_Some)
  have mem: "\<And>a y. a \<in> set (lookup b y) \<longleftrightarrow> y \<in> set (lookup f a)"
    using inv by (auto simp: preds_of_def)
  have sub: "set ys \<subseteq> fst ` set b"
  proof
    fix y assume "y \<in> set ys"
    then have "x \<in> set (lookup b y)" using mem lx by simp
    then show "y \<in> fst ` set b" by (rule lookup_in_keys)
  qed
  show "fst (discard_each x ys b) = None" using sub by (rule discard_each_no_error)
  show "dict_ok (snd (discard_each x ys b))"
  proof (rule dict_okI)
    show "distinct (map fst (snd (discard_each x ys b)))"
      using b by (simp add: dict_ok_def discard_each_distinct)
    fix k s assume "map_of (snd (discard_each x ys b)) k = Some s"
    then have "s = lookup (snd (discard_each x ys b)) k" by (simp add: lookup_def)
    then show "distinct s"
      using dict_ok_lookup[OF b, of k] by (simp add: discard_each_lookup[OF sub] distinct_removeAll)
  qed
  show "preds_of (snd (discard_each x ys b)) = (preds_of (AList.delete x f))\<inverse>"
    unfolding preds_of_delete
    using mem lx by (auto simp: preds_of_def discard_each_lookup[OF sub])
qed

lemma digraph_inv_sym: "digraph_inv g \<Longrightarrow> preds_of (fwd g) = (preds_of (bck g))\<inverse>"
  by (auto simp: digraph_inv_alt)

lemma del_edges_from_Some:
  assumes "digraph_inv g" and x: "map_of (fwd g) x = Some ys"
  shows "del_edges_from g x =
           (None, \<lparr>fwd = AList.delete x (fwd g), bck = snd (discard_each x ys (bck g))\<rparr>)"
proof -
  from assms have f: "dict_ok (fwd g)" and b: "dict_ok (bck g)"
    and inv: "preds_of (bck g) = (preds_of (fwd g))\<inverse>"
    by (auto simp: digraph_inv_alt)
  from del_generic(1)[OF f b inv x] obtain b' where "discard_each x ys (bck g) = (None, b')"
    by (cases "discard_each x ys (bck g)") auto
  then show ?thesis using x by (simp add: del_edges_from_def)
qed

lemma del_edges_to_Some:
  assumes "digraph_inv g" and x: "map_of (bck g) x = Some ys"
  shows "del_edges_to g x =
           (None, \<lparr>fwd = snd (discard_each x ys (fwd g)), bck = AList.delete x (bck g)\<rparr>)"
proof -
  from assms have f: "dict_ok (fwd g)" and b: "dict_ok (bck g)"
    and inv: "preds_of (fwd g) = (preds_of (bck g))\<inverse>"
    by (auto simp: digraph_inv_alt)
  from del_generic(1)[OF b f inv x] obtain f' where "discard_each x ys (fwd g) = (None, f')"
    by (cases "discard_each x ys (fwd g)") auto
  then show ?thesis using x by (simp add: del_edges_to_def)
qed

lemma del_edges_from_inv:
  assumes "digraph_inv g"
  shows "fst (del_edges_from g x) = None"
    and "digraph_inv (snd (del_edges_from g x))"
    and "edges (snd (del_edges_from g x)) = {(a, b). (a, b) \<in> edges g \<and> a \<noteq> x}"
proof -
  from assms have f: "dict_ok (fwd g)" and b: "dict_ok (bck g)"
    and inv: "preds_of (bck g) = (preds_of (fwd g))\<inverse>"
    by (auto simp: digraph_inv_alt)
  show "fst (del_edges_from g x) = None"
  proof (cases "map_of (fwd g) x")
    case None
    then show ?thesis by (simp add: del_edges_from_def)
  next
    case (Some ys)
    show ?thesis by (simp add: del_edges_from_Some[OF assms Some])
  qed
  show "digraph_inv (snd (del_edges_from g x))"
  proof (cases "map_of (fwd g) x")
    case None
    then show ?thesis using assms by (simp add: del_edges_from_def)
  next
    case (Some ys)
    from del_generic[OF f b inv Some] dict_ok_delete[OF f, of x] show ?thesis
      by (simp add: del_edges_from_Some[OF assms Some] digraph_inv_alt)
  qed
  show "edges (snd (del_edges_from g x)) = {(a, b). (a, b) \<in> edges g \<and> a \<noteq> x}"
  proof (cases "map_of (fwd g) x")
    case None
    then have "lookup (fwd g) x = []" by (rule lookup_None)
    then show ?thesis using None
      by (auto simp: del_edges_from_def edges_def edges_from_lookup)
  next
    case (Some ys)
    show ?thesis
      by (auto simp: del_edges_from_Some[OF assms Some] edges_preds_of preds_of_delete)
  qed
qed

lemma del_edges_to_inv:
  assumes "digraph_inv g"
  shows "fst (del_edges_to g x) = None"
    and "digraph_inv (snd (del_edges_to g x))"
    and "edges (snd (del_edges_to g x)) = {(a, b). (a, b) \<in> edges g \<and> b \<noteq> x}"
proof -
  from assms have f: "dict_ok (fwd g)" and b: "dict_ok (bck g)"
    and inv: "preds_of (fwd g) = (preds_of (bck g))\<inverse>"
    by (auto simp: digraph_inv_alt)
  show "fst (del_edges_to g x) = None"
  proof (cases "map_of (bck g) x")
    case None
    then show ?thesis by (simp add: del_edges_to_def)
  next
    case (Some ys)
    show ?thesis by (simp add: del_edges_to_Some[OF assms Some])
  qed
  have inv': "digraph_inv (snd (del_edges_to g x))"
  proof (cases "map_of (bck g) x")
    case None
    then show ?thesis using assms by (simp add: del_edges_to_def)
  next
    case (Some ys)
    from del_generic[OF b f inv Some] dict_ok_delete[OF b, of x] show ?thesis
      by (simp add: del_edges_to_Some[OF assms Some] digraph_inv_alt)
  qed
  then show "digraph_inv (snd (del_edges_to g x))" .
  show "edges (snd (del_edges_to g x)) = {(a, b). (a, b) \<in> edges g \<and> b \<noteq> x}"
  proof (cases "map_of (bck g) x")
    case None
    then have "lookup (bck g) x = []" by (rule lookup_None)
    then show ?thesis using None assms
      by (auto simp: del_edges_to_def edges_preds_bck preds_of_def)
  next
    case (Some ys)
    have "edges (snd (del_edges_to g x)) = preds_of (bck (snd (del_edges_to g x)))"
      using inv' by (rule edges_preds_bck)
    also have "\<dots> = preds_of (AList.delete x (bck g))"
      by (simp add: del_edges_to_Some[OF assms Some])
    finally show ?thesis
      using assms by (auto simp: preds_of_delete edges_preds_bck)
  qed
qed

subsection \<open>What the traversal of \<^verbatim>\<open>subgraph_paths_to\<close> computes\<close>

text \<open>
  \<open>sub_post b x ys s s'\<close> relates the state \<open>s\<close> before and the state \<open>s'\<close> after a
  traversal that adds the edges \<open>(y, x)\<close> for \<open>y\<close> in \<open>ys\<close> and visits every \<open>y\<close> in
  \<open>ys\<close>: the newly seen vertices have all their predecessors seen, and the graph has
  gained exactly the edges into the newly seen vertices, besides the edges \<open>(y, x)\<close>.
\<close>

definition sub_post ::
  "'a pydict \<Rightarrow> 'a \<Rightarrow> 'a list \<Rightarrow> 'a digraph \<times> 'a set \<Rightarrow> 'a digraph \<times> 'a set \<Rightarrow> bool" where
  "sub_post b x ys s s' \<longleftrightarrow>
     snd s \<subseteq> snd s' \<and>
     (\<forall>z\<in>snd s' - snd s. \<forall>y. (y, z) \<in> preds_of b \<longrightarrow> y \<in> snd s') \<and>
     edges (fst s') = edges (fst s) \<union> {(y, x) |y. y \<in> set ys}
                        \<union> {(y, z). z \<in> snd s' - snd s \<and> (y, z) \<in> preds_of b} \<and>
     digraph_inv (fst s') \<and> no_isolated (fst s')"

lemma sub_dfs_post:
  "digraph_inv (fst s) \<Longrightarrow> no_isolated (fst s) \<Longrightarrow>
     sub_post b x [] s (sub_dfs b x s) \<and> x \<in> snd (sub_dfs b x s) \<and>
     (\<forall>z\<in>snd (sub_dfs b x s) - snd s. (z, x) \<in> (preds_of b)\<^sup>*)"
  and sub_loop_post:
  "digraph_inv (fst s) \<Longrightarrow> no_isolated (fst s) \<Longrightarrow>
     sub_post b x ys s (sub_loop b x ys s) \<and> set ys \<subseteq> snd (sub_loop b x ys s) \<and>
     (\<forall>z\<in>snd (sub_loop b x ys s) - snd s. \<exists>y\<in>set ys. (z, y) \<in> (preds_of b)\<^sup>*)"
proof (induction b x s and b x ys s rule: sub_dfs_sub_loop.induct)
  case (1 b x graph seen)
  show ?case
  proof (cases "x \<in> seen")
    case True
    then show ?thesis using 1(2,3) by (simp add: sub_post_def sub_dfs.simps)
  next
    case False
    show ?thesis
    proof (cases "map_of b x")
      case None
      then have "lookup b x = []" by (rule lookup_None)
      then have "\<And>y. (y, x) \<notin> preds_of b" by (simp add: preds_of_def)
      then show ?thesis using False None 1(2,3) by (auto simp: sub_post_def sub_dfs.simps)
    next
      case (Some ys)
      then have lx: "lookup b x = ys" by (rule lookup_Some)
      then have px: "\<And>y. (y, x) \<in> preds_of b \<longleftrightarrow> y \<in> set ys" by (simp add: preds_of_def)
      let ?r = "sub_loop b x ys (graph, insert x seen)"
      have eq: "sub_dfs b x (graph, seen) = ?r" using False Some by (simp add: sub_dfs.simps)
      from 1(1)[OF False Some] 1(2,3)
      have post: "sub_post b x ys (graph, insert x seen) ?r"
        and ys: "set ys \<subseteq> snd ?r"
        and reach: "\<forall>z\<in>snd ?r - insert x seen. \<exists>y\<in>set ys. (z, y) \<in> (preds_of b)\<^sup>*"
        by simp_all
      have xs: "x \<in> snd ?r" using post by (simp add: sub_post_def)
      have sub: "insert x seen \<subseteq> snd ?r"
        using post by (simp add: sub_post_def)
      have c: "\<forall>z\<in>snd ?r - insert x seen. \<forall>y. (y, z) \<in> preds_of b \<longrightarrow> y \<in> snd ?r"
        using post by (simp add: sub_post_def)
      have e: "edges (fst ?r) = edges graph \<union> {(y, x) |y. y \<in> set ys}
                 \<union> {(y, z). z \<in> snd ?r - insert x seen \<and> (y, z) \<in> preds_of b}"
        using post by (simp add: sub_post_def)
      have A: "{(y, x) |y. y \<in> set ys} = {(y, z). z = x \<and> (y, z) \<in> preds_of b}"
        using px by auto
      have "sub_post b x [] (graph, seen) ?r"
        unfolding sub_post_def
      proof (intro conjI)
        show "snd (graph, seen) \<subseteq> snd ?r" using sub by auto
        show "\<forall>z\<in>snd ?r - snd (graph, seen). \<forall>y. (y, z) \<in> preds_of b \<longrightarrow> y \<in> snd ?r"
        proof (intro ballI allI impI)
          fix z y assume z: "z \<in> snd ?r - snd (graph, seen)" and yz: "(y, z) \<in> preds_of b"
          show "y \<in> snd ?r"
          proof (cases "z = x")
            case True
            with yz have "y \<in> set ys" by (simp add: px)
            with ys show ?thesis by blast
          next
            case False
            with z have "z \<in> snd ?r - insert x seen" by simp
            with c yz show ?thesis by blast
          qed
        qed
        have "edges (fst ?r) = edges graph
                \<union> {(y, z). z \<in> snd ?r - seen \<and> (y, z) \<in> preds_of b}"
          unfolding e A using xs False by blast
        then show "edges (fst ?r) = edges (fst (graph, seen)) \<union> {(y, x) |y. y \<in> set []}
                \<union> {(y, z). z \<in> snd ?r - snd (graph, seen) \<and> (y, z) \<in> preds_of b}"
          by simp
        show "digraph_inv (fst ?r)" using post by (simp add: sub_post_def)
        show "no_isolated (fst ?r)" using post by (simp add: sub_post_def)
      qed
      moreover have "\<forall>z\<in>snd ?r - snd (graph, seen). (z, x) \<in> (preds_of b)\<^sup>*"
      proof
        fix z assume z: "z \<in> snd ?r - snd (graph, seen)"
        show "(z, x) \<in> (preds_of b)\<^sup>*"
        proof (cases "z = x")
          case True
          then show ?thesis by simp
        next
          case False
          with z reach obtain y where "y \<in> set ys" "(z, y) \<in> (preds_of b)\<^sup>*" by auto
          moreover from this px have "(y, x) \<in> preds_of b" by simp
          ultimately show ?thesis by (meson rtrancl.rtrancl_into_rtrancl)
        qed
      qed
      ultimately show ?thesis using xs unfolding eq by simp
    qed
  qed
next
  case (2 b x s)
  then show ?case by (simp add: sub_post_def)
next
  case (3 b x y ys graph seen)
  let ?s0 = "(add_edge graph y x, seen)"
  let ?s1 = "sub_dfs b y ?s0"
  let ?s2 = "sub_loop b x ys ?s1"
  have eq: "sub_loop b x (y # ys) (graph, seen) = ?s2" by simp
  have i0: "digraph_inv (fst ?s0)" "no_isolated (fst ?s0)"
    using 3(3,4) by (simp_all add: digraph_inv_add_edge no_isolated_add_edge)
  from 3(1)[OF i0]
  have p1: "sub_post b y [] ?s0 ?s1" and y1: "y \<in> snd ?s1"
    and r1: "\<forall>z\<in>snd ?s1 - seen. (z, y) \<in> (preds_of b)\<^sup>*"
    by simp_all
  have i1: "digraph_inv (fst ?s1)" "no_isolated (fst ?s1)"
    using p1 by (simp_all add: sub_post_def)
  from 3(2)[OF i1]
  have p2: "sub_post b x ys ?s1 ?s2" and y2: "set ys \<subseteq> snd ?s2"
    and r2: "\<forall>z\<in>snd ?s2 - snd ?s1. \<exists>y'\<in>set ys. (z, y') \<in> (preds_of b)\<^sup>*"
    by simp_all
  have sub1: "seen \<subseteq> snd ?s1" using p1 by (simp add: sub_post_def)
  have sub2: "snd ?s1 \<subseteq> snd ?s2" using p2 by (simp add: sub_post_def)
  have c1: "\<forall>z\<in>snd ?s1 - seen. \<forall>y. (y, z) \<in> preds_of b \<longrightarrow> y \<in> snd ?s1"
    using p1 by (simp add: sub_post_def)
  have c2: "\<forall>z\<in>snd ?s2 - snd ?s1. \<forall>y. (y, z) \<in> preds_of b \<longrightarrow> y \<in> snd ?s2"
    using p2 by (simp add: sub_post_def)
  have e1: "edges (fst ?s1) = insert (y, x) (edges graph)
              \<union> {(y, z). z \<in> snd ?s1 - seen \<and> (y, z) \<in> preds_of b}"
    using p1 by (simp add: sub_post_def edges_add_edge)
  have e2: "edges (fst ?s2) = edges (fst ?s1) \<union> {(y, x) |y. y \<in> set ys}
              \<union> {(y, z). z \<in> snd ?s2 - snd ?s1 \<and> (y, z) \<in> preds_of b}"
    using p2 by (simp add: sub_post_def)
  have "sub_post b x (y # ys) (graph, seen) ?s2"
    unfolding sub_post_def
  proof (intro conjI)
    show "snd (graph, seen) \<subseteq> snd ?s2" using sub1 sub2 by auto
    show "\<forall>z\<in>snd ?s2 - snd (graph, seen). \<forall>y. (y, z) \<in> preds_of b \<longrightarrow> y \<in> snd ?s2"
      using c1 c2 sub2 by auto
    show "edges (fst ?s2) = edges (fst (graph, seen)) \<union> {(y', x) |y'. y' \<in> set (y # ys)}
            \<union> {(y, z). z \<in> snd ?s2 - snd (graph, seen) \<and> (y, z) \<in> preds_of b}"
      unfolding e2 e1 using sub1 sub2 by auto
    show "digraph_inv (fst ?s2)" using p2 by (simp add: sub_post_def)
    show "no_isolated (fst ?s2)" using p2 by (simp add: sub_post_def)
  qed
  moreover have "set (y # ys) \<subseteq> snd ?s2" using y1 y2 sub2 by auto
  moreover have "\<forall>z\<in>snd ?s2 - snd (graph, seen). \<exists>y'\<in>set (y # ys). (z, y') \<in> (preds_of b)\<^sup>*"
    using r1 r2 by auto
  ultimately show ?case unfolding eq by simp
qed

lemma edges_Digraph: "edges Digraph = {}"
  by (simp add: edges_def edges_from_def Digraph_def)

lemma subgraph_paths_to_edges_bck:
  "edges (subgraph_paths_to g x) =
     {(y, z). (y, z) \<in> preds_of (bck g) \<and> (z, x) \<in> (preds_of (bck g))\<^sup>*}"
  and subgraph_paths_to_inv: "digraph_inv (subgraph_paths_to g x)"
  and subgraph_paths_to_no_isolated: "no_isolated (subgraph_paths_to g x)"
proof -
  let ?R = "preds_of (bck g)"
  let ?r = "sub_dfs (bck g) x (Digraph, {})"
  have "digraph_inv (fst (Digraph :: 'a digraph, {} :: 'a set))"
    "no_isolated (fst (Digraph :: 'a digraph, {} :: 'a set))"
    by (simp_all add: digraph_inv_Digraph no_isolated_Digraph)
  from sub_dfs_post[OF this, of "bck g" x]
  have post: "sub_post (bck g) x [] (Digraph, {}) ?r" and x: "x \<in> snd ?r"
    and reach: "\<forall>z\<in>snd ?r. (z, x) \<in> ?R\<^sup>*"
    by simp_all
  have closed: "\<forall>z\<in>snd ?r. \<forall>y. (y, z) \<in> ?R \<longrightarrow> y \<in> snd ?r"
    using post by (simp add: sub_post_def)
  have e: "edges (fst ?r) = {(y, z). z \<in> snd ?r \<and> (y, z) \<in> ?R}"
    using post by (simp add: sub_post_def edges_Digraph)
  have "z \<in> snd ?r" if "(z, x) \<in> ?R\<^sup>*" for z
    using that
  proof (induction rule: converse_rtrancl_induct)
    case base
    show ?case by (rule x)
  next
    case (step y z)
    with closed show ?case by blast
  qed
  with reach have seen: "snd ?r = {z. (z, x) \<in> ?R\<^sup>*}" by blast
  show "edges (subgraph_paths_to g x) = {(y, z). (y, z) \<in> ?R \<and> (z, x) \<in> ?R\<^sup>*}"
    unfolding subgraph_paths_to_def e seen by blast
  show "digraph_inv (subgraph_paths_to g x)"
    using post by (simp add: sub_post_def subgraph_paths_to_def)
  show "no_isolated (subgraph_paths_to g x)"
    using post by (simp add: sub_post_def subgraph_paths_to_def)
qed

lemma subgraph_paths_to_edges:
  assumes "digraph_inv g"
  shows "edges (subgraph_paths_to g x) = {(y, z). (y, z) \<in> edges g \<and> (z, x) \<in> (edges g)\<^sup>*}"
  using subgraph_paths_to_edges_bck[of g x] edges_preds_bck[OF assms] by simp

lemma edges_to_nonempty:
  assumes "digraph_inv g"
  shows "edges_to g x \<noteq> [] \<longleftrightarrow> (\<exists>y. (y, x) \<in> edges g)"
proof -
  have "edges_to g x \<noteq> [] \<longleftrightarrow> (\<exists>y. y \<in> set (edges_to g x))"
    by (cases "edges_to g x") auto
  then show ?thesis
    by (simp add: edges_preds_bck[OF assms] preds_of_def edges_to_lookup)
qed

lemma subgraph_paths_to_vertices:
  assumes "digraph_inv g"
  shows "vertices (subgraph_paths_to g x) =
           {v. (v, x) \<in> (edges g)\<^sup>+} \<union> (if edges_to g x = [] then {} else {x})"
proof -
  let ?E = "edges g"
  let ?E' = "{(y, z). (y, z) \<in> ?E \<and> (z, x) \<in> ?E\<^sup>*}"
  have v: "vertices (subgraph_paths_to g x) = Field ?E'"
    using vertices_no_isolated[OF subgraph_paths_to_inv subgraph_paths_to_no_isolated, of g x]
    by (simp add: subgraph_paths_to_edges[OF assms])
  have d: "Domain ?E' = {v. (v, x) \<in> ?E\<^sup>+}"
    by (auto simp: Domain_unfold intro: rtrancl_into_trancl2 dest: tranclD)
  have r: "Range ?E' = {z. (z, x) \<in> ?E\<^sup>* \<and> (\<exists>y. (y, z) \<in> ?E)}"
    by (auto simp: Range_iff)
  have "Range ?E' \<union> {v. (v, x) \<in> ?E\<^sup>+}
          = {v. (v, x) \<in> ?E\<^sup>+} \<union> (if edges_to g x = [] then {} else {x})"
    unfolding r using edges_to_nonempty[OF assms, of x]
    by (auto dest: rtranclD)
  then show ?thesis unfolding v Field_def d by blast
qed

subsection \<open>Claim C6: the vertices and edges of \<^verbatim>\<open>subgraph_paths_to\<close>\<close>

lemma subgraph_paths_to_example:
  "subgraph_paths_to (add_edge Digraph ''a'' ''b'') ''b'' = \<lparr>fwd = [(''a'', [''b''])], bck = [(''b'', [''a''])]\<rparr>"
  by (simp add: subgraph_paths_to_def sub_dfs.simps add_edge_def Digraph_def dict_add_def set_add_def)

text \<open>
  C6 as stated: the target \<open>x\<close> is a vertex of the result exactly when it lies on a
  cycle. It fails on the graph with the single edge \<open>a \<rightarrow> b\<close> and \<open>x = b\<close>: the
  traversal runs \<^verbatim>\<open>graph.add_edge('a', 'b')\<close>, which stores \<open>b\<close> as a key of the
  backward mapping of the result, and \<open>b\<close> has no path to itself.
\<close>

theorem subgraph_paths_to_target_counterexample:
  "\<not> (''b'' \<in> vertices (subgraph_paths_to (add_edge Digraph ''a'' ''b'') ''b'') \<longleftrightarrow>
       (''b'', ''b'') \<in> (edges (add_edge Digraph ''a'' ''b''))\<^sup>+)"
  unfolding subgraph_paths_to_example
  by (simp add: vertices_def edges_add_edge edges_Digraph trancl_insert)

text \<open>
  C6 as amended: for a graph whose two mappings are inverse to each other, the vertices of
  \<^verbatim>\<open>subgraph_paths_to(x)\<close> are the vertices with a non-empty path to \<open>x\<close>, and \<open>x\<close>
  itself whenever \<open>x\<close> has an incoming edge; the result holds exactly the edges of the
  graph among those vertices; \<open>x\<close> is a vertex of the result iff it has an incoming edge;
  every other vertex without a path to \<open>x\<close> is absent (the first equation); and the result
  is again a well-formed graph.
\<close>

theorem subgraph_paths_to_induced:
  assumes "digraph_inv g"
  shows "vertices (subgraph_paths_to g x) =
           {v. (v, x) \<in> (edges g)\<^sup>+} \<union> (if edges_to g x = [] then {} else {x}) \<and>
         edges (subgraph_paths_to g x) =
           {(a, b). (a, b) \<in> edges g \<and> a \<in> vertices (subgraph_paths_to g x)
                      \<and> b \<in> vertices (subgraph_paths_to g x)} \<and>
         (x \<in> vertices (subgraph_paths_to g x) \<longleftrightarrow> edges_to g x \<noteq> []) \<and>
         digraph_inv (subgraph_paths_to g x)"
proof (intro conjI)
  let ?E = "edges g"
  let ?V = "vertices (subgraph_paths_to g x)"
  show v: "?V = {v. (v, x) \<in> ?E\<^sup>+} \<union> (if edges_to g x = [] then {} else {x})"
    by (rule subgraph_paths_to_vertices[OF assms])
  have nopred: "(x, x) \<notin> ?E\<^sup>+" if "edges_to g x = []"
  proof
    assume "(x, x) \<in> ?E\<^sup>+"
    then obtain y where "(y, x) \<in> ?E" by (blast dest: tranclD2)
    with edges_to_nonempty[OF assms, of x] that show False by blast
  qed
  show "x \<in> ?V \<longleftrightarrow> edges_to g x \<noteq> []"
    unfolding v using nopred by auto
  have inV: "b \<in> ?V \<longleftrightarrow> (b, x) \<in> ?E\<^sup>* \<and> (b = x \<longrightarrow> edges_to g x \<noteq> [])" for b
    unfolding v using nopred by (auto simp: rtrancl_eq_or_trancl)
  show "edges (subgraph_paths_to g x) = {(a, b). (a, b) \<in> ?E \<and> a \<in> ?V \<and> b \<in> ?V}"
  proof -
    have "(a, b) \<in> ?E \<and> (b, x) \<in> ?E\<^sup>* \<longleftrightarrow> (a, b) \<in> ?E \<and> a \<in> ?V \<and> b \<in> ?V" for a b
    proof
      assume h: "(a, b) \<in> ?E \<and> (b, x) \<in> ?E\<^sup>*"
      then have "(a, x) \<in> ?E\<^sup>+" by (meson rtrancl_into_trancl2)
      then have "a \<in> ?V" unfolding v by simp
      moreover have "b \<in> ?V"
        unfolding inV using h edges_to_nonempty[OF assms, of x] by blast
      ultimately show "(a, b) \<in> ?E \<and> a \<in> ?V \<and> b \<in> ?V" using h by simp
    next
      assume "(a, b) \<in> ?E \<and> a \<in> ?V \<and> b \<in> ?V"
      then show "(a, b) \<in> ?E \<and> (b, x) \<in> ?E\<^sup>*" by (simp add: inV)
    qed
    then show ?thesis unfolding subgraph_paths_to_edges[OF assms] by simp
  qed
  show "digraph_inv (subgraph_paths_to g x)" by (rule subgraph_paths_to_inv)
qed

theorem subgraph_paths_to_induced_witness:
  "digraph_inv (add_edge (add_edge Digraph ''c'' ''b'') ''b'' ''a'') \<and>
   vertices (subgraph_paths_to (add_edge (add_edge Digraph ''c'' ''b'') ''b'' ''a'') ''a'') =
     {v. (v, ''a'') \<in> (edges (add_edge (add_edge Digraph ''c'' ''b'') ''b'' ''a''))\<^sup>+} \<union> {''a''} \<and>
   ''a'' \<in> vertices (subgraph_paths_to (add_edge (add_edge Digraph ''c'' ''b'') ''b'' ''a'') ''a'') \<and>
   edges_to (add_edge (add_edge Digraph ''c'' ''b'') ''b'' ''a'') ''a'' = [''b'']"
proof -
  have h: "digraph_inv (add_edge (add_edge Digraph ''c'' ''b'') ''b'' ''a'')"
    by (intro digraph_inv_add_edge digraph_inv_Digraph)
  have e: "edges_to (add_edge (add_edge Digraph ''c'' ''b'') ''b'' ''a'') ''a'' = [''b'']"
    by (simp add: edges_to_def add_edge_def Digraph_def dict_add_def set_add_def)
  from subgraph_paths_to_induced[OF h, of "''a''"] h e show ?thesis by simp
qed

subsection \<open>What the traversal of the topological sorts computes\<close>

text \<open>
  \<open>topo_ok R out\<close>: every \<open>R\<close>-predecessor of an element of \<open>out\<close> occurs earlier in
  \<open>out\<close>. \<open>topo_inv\<close> is the invariant of the state (\<^verbatim>\<open>seen\<close>, yielded values): what
  was yielded has been seen, nothing was yielded twice, and the yielded values are in
  order. The vertices seen and not yet yielded are the ones whose \<^verbatim>\<open>dfs\<close> is running.
\<close>

definition topo_ok :: "('a \<times> 'a) set \<Rightarrow> 'a list \<Rightarrow> bool" where
  "topo_ok R out \<longleftrightarrow> (\<forall>i<length out. \<forall>u. (u, out ! i) \<in> R \<longrightarrow> u \<in> set (take i out))"

definition topo_inv :: "('a \<times> 'a) set \<Rightarrow> 'a set \<times> 'a list \<Rightarrow> bool" where
  "topo_inv R s \<longleftrightarrow> set (snd s) \<subseteq> fst s \<and> distinct (snd s) \<and> topo_ok R (snd s)"

definition topo_post :: "('a \<times> 'a) set \<Rightarrow> 'a set \<times> 'a list \<Rightarrow> 'a set \<times> 'a list \<Rightarrow> bool" where
  "topo_post R s s' \<longleftrightarrow>
     topo_inv R s' \<and> fst s \<subseteq> fst s' \<and> fst s' - set (snd s') = fst s - set (snd s)"

lemma topo_ok_Nil: "topo_ok R []"
  by (simp add: topo_ok_def)

lemma topo_ok_snoc:
  "topo_ok R (xs @ [x]) \<longleftrightarrow> topo_ok R xs \<and> (\<forall>u. (u, x) \<in> R \<longrightarrow> u \<in> set xs)"
proof
  assume a: "topo_ok R (xs @ [x])"
  have "topo_ok R xs"
    unfolding topo_ok_def
  proof (intro allI impI)
    fix i u assume i: "i < length xs" and u: "(u, xs ! i) \<in> R"
    from a i u have "u \<in> set (take i (xs @ [x]))"
      unfolding topo_ok_def by (metis length_append_singleton less_Suc_eq nth_append)
    with i show "u \<in> set (take i xs)" by simp
  qed
  moreover have "\<forall>u. (u, x) \<in> R \<longrightarrow> u \<in> set xs"
  proof (intro allI impI)
    fix u assume "(u, x) \<in> R"
    with a have "u \<in> set (take (length xs) (xs @ [x]))"
      unfolding topo_ok_def by (metis length_append_singleton lessI nth_append_length)
    then show "u \<in> set xs" by simp
  qed
  ultimately show "topo_ok R xs \<and> (\<forall>u. (u, x) \<in> R \<longrightarrow> u \<in> set xs)" ..
next
  assume a: "topo_ok R xs \<and> (\<forall>u. (u, x) \<in> R \<longrightarrow> u \<in> set xs)"
  show "topo_ok R (xs @ [x])"
    unfolding topo_ok_def
  proof (intro allI impI)
    fix i u assume i: "i < length (xs @ [x])" and u: "(u, (xs @ [x]) ! i) \<in> R"
    show "u \<in> set (take i (xs @ [x]))"
    proof (cases "i < length xs")
      case True
      with a u show ?thesis by (simp add: topo_ok_def nth_append)
    next
      case False
      with i have "i = length xs" by simp
      with a u show ?thesis by simp
    qed
  qed
qed

lemma topo_dfs_post:
  "acyclic (preds_of m) \<Longrightarrow> topo_inv (preds_of m) s \<Longrightarrow>
   \<forall>g\<in>fst s - set (snd s). (x, g) \<in> (preds_of m)\<^sup>+ \<Longrightarrow>
     topo_post (preds_of m) s (topo_dfs m x s) \<and> x \<in> fst (topo_dfs m x s) \<and>
     fst (topo_dfs m x s) - fst s \<subseteq> insert x (Domain (preds_of m))"
  and topo_loop_post:
  "acyclic (preds_of m) \<Longrightarrow> topo_inv (preds_of m) s \<Longrightarrow>
   \<forall>g\<in>fst s - set (snd s). \<forall>y\<in>set ys. (y, g) \<in> (preds_of m)\<^sup>+ \<Longrightarrow>
     topo_post (preds_of m) s (topo_loop m ys s) \<and> set ys \<subseteq> fst (topo_loop m ys s) \<and>
     fst (topo_loop m ys s) - fst s \<subseteq> set ys \<union> Domain (preds_of m)"
proof (induction m x s and m ys s rule: topo_dfs_topo_loop.induct)
  case (1 m x seen out)
  let ?R = "preds_of m"
  note acyc = 1(2) and inv = 1(3) and pre = 1(4)
  have out: "set out \<subseteq> seen" "distinct out" "topo_ok ?R out"
    using inv by (simp_all add: topo_inv_def)
  show ?case
  proof (cases "x \<in> seen")
    case True
    then show ?thesis using inv by (simp add: topo_dfs.simps topo_post_def)
  next
    case False
    then have xout: "x \<notin> set out" using out(1) by blast
    show ?thesis
    proof (cases "map_of m x")
      case None
      then have "lookup m x = []" by (rule lookup_None)
      then have nopred: "\<And>u. (u, x) \<notin> ?R" by (simp add: preds_of_def)
      have eq: "topo_dfs m x (seen, out) = (insert x seen, out @ [x])"
        using False None by (simp add: topo_dfs.simps)
      have "topo_inv ?R (insert x seen, out @ [x])"
        using out xout nopred by (auto simp: topo_inv_def topo_ok_snoc)
      moreover have "insert x seen - set (out @ [x]) = seen - set out"
        using False by auto
      ultimately show ?thesis unfolding eq by (auto simp: topo_post_def)
    next
      case (Some ys)
      then have "lookup m x = ys" by (rule lookup_Some)
      then have px: "\<And>u. (u, x) \<in> ?R \<longleftrightarrow> u \<in> set ys" by (simp add: preds_of_def)
      let ?s0 = "(insert x seen, out)"
      let ?r = "topo_loop m ys ?s0"
      have eq: "topo_dfs m x (seen, out) = (fst ?r, snd ?r @ [x])"
        using False Some by (simp add: topo_dfs.simps split: prod.splits)
      have inv0: "topo_inv ?R ?s0" using out by (auto simp: topo_inv_def)
      have gray0: "fst ?s0 - set (snd ?s0) = insert x (seen - set out)"
        using xout by auto
      have pre0: "\<forall>g\<in>fst ?s0 - set (snd ?s0). \<forall>y\<in>set ys. (y, g) \<in> ?R\<^sup>+"
      proof (intro ballI)
        fix g y assume g: "g \<in> fst ?s0 - set (snd ?s0)" and y: "y \<in> set ys"
        from y have yx: "(y, x) \<in> ?R" by (simp add: px)
        show "(y, g) \<in> ?R\<^sup>+"
        proof (cases "g = x")
          case True
          with yx show ?thesis by blast
        next
          case False
          with g have "g \<in> seen - set out" by auto
          with pre have "(x, g) \<in> ?R\<^sup>+" by simp
          with yx show ?thesis by (meson trancl_into_trancl2)
        qed
      qed
      from 1(1)[OF False Some acyc inv0 pre0]
      have post: "topo_post ?R ?s0 ?r" and ys: "set ys \<subseteq> fst ?r"
        and new: "fst ?r - insert x seen \<subseteq> set ys \<union> Domain ?R"
        by simp_all
      have invr: "set (snd ?r) \<subseteq> fst ?r" "distinct (snd ?r)" "topo_ok ?R (snd ?r)"
        using post by (simp_all add: topo_post_def topo_inv_def)
      have sub: "insert x seen \<subseteq> fst ?r" using post by (simp add: topo_post_def)
      have gray: "fst ?r - set (snd ?r) = insert x (seen - set out)"
        using post gray0 by (simp add: topo_post_def)
      have xr: "x \<in> fst ?r" "x \<notin> set (snd ?r)" using gray by auto
      have preds: "u \<in> set (snd ?r)" if "(u, x) \<in> ?R" for u
      proof (rule ccontr)
        assume n: "u \<notin> set (snd ?r)"
        from that have "u \<in> set ys" by (simp add: px)
        with ys n have "u \<in> fst ?r - set (snd ?r)" by blast
        with gray have "u = x \<or> u \<in> seen - set out" by blast
        then have "(x, u) \<in> ?R\<^sup>*"
        proof
          assume "u = x" then show ?thesis by simp
        next
          assume "u \<in> seen - set out"
          with pre show ?thesis by auto
        qed
        with that have "(x, x) \<in> ?R\<^sup>+" by (meson rtrancl_into_trancl1)
        with acyc show False by (simp add: acyclic_def)
      qed
      have "topo_inv ?R (fst ?r, snd ?r @ [x])"
        using invr xr preds by (auto simp: topo_inv_def topo_ok_snoc)
      moreover have "seen \<subseteq> fst ?r" using sub by blast
      moreover have "fst ?r - set (snd ?r @ [x]) = seen - set out"
        using gray False by auto
      moreover have "fst ?r - seen \<subseteq> insert x (Domain ?R)"
      proof
        fix v assume v: "v \<in> fst ?r - seen"
        show "v \<in> insert x (Domain ?R)"
        proof (cases "v = x")
          case True then show ?thesis by simp
        next
          case False
          with v new have "v \<in> set ys \<or> v \<in> Domain ?R" by blast
          then show ?thesis using px by blast
        qed
      qed
      ultimately show ?thesis unfolding eq using xr(1) by (simp add: topo_post_def)
    qed
  qed
next
  case (2 m s)
  then show ?case by (simp add: topo_post_def)
next
  case (3 m y ys s)
  let ?R = "preds_of m"
  let ?s1 = "topo_dfs m y s"
  let ?s2 = "topo_loop m ys ?s1"
  note acyc = 3(3) and inv = 3(4) and pre = 3(5)
  have eq: "topo_loop m (y # ys) s = ?s2" by simp
  have pre1: "\<forall>g\<in>fst s - set (snd s). (y, g) \<in> ?R\<^sup>+" using pre by simp
  from 3(1)[OF acyc inv pre1]
  have p1: "topo_post ?R s ?s1" and y1: "y \<in> fst ?s1"
    and n1: "fst ?s1 - fst s \<subseteq> insert y (Domain ?R)"
    by simp_all
  have inv1: "topo_inv ?R ?s1" and sub1: "fst s \<subseteq> fst ?s1"
    and gray1: "fst ?s1 - set (snd ?s1) = fst s - set (snd s)"
    using p1 by (simp_all add: topo_post_def)
  have pre2: "\<forall>g\<in>fst ?s1 - set (snd ?s1). \<forall>y'\<in>set ys. (y', g) \<in> ?R\<^sup>+"
    unfolding gray1 using pre by simp
  from 3(2)[OF acyc inv1 pre2]
  have p2: "topo_post ?R ?s1 ?s2" and y2: "set ys \<subseteq> fst ?s2"
    and n2: "fst ?s2 - fst ?s1 \<subseteq> set ys \<union> Domain ?R"
    by simp_all
  have inv2: "topo_inv ?R ?s2" and sub2: "fst ?s1 \<subseteq> fst ?s2"
    and gray2: "fst ?s2 - set (snd ?s2) = fst ?s1 - set (snd ?s1)"
    using p2 by (simp_all add: topo_post_def)
  have "topo_post ?R s ?s2"
    unfolding topo_post_def using inv2 sub1 sub2 gray1 gray2 by auto
  moreover have "set (y # ys) \<subseteq> fst ?s2" using y1 y2 sub2 by auto
  moreover have "fst ?s2 - fst s \<subseteq> set (y # ys) \<union> Domain ?R"
    using n1 n2 by auto
  ultimately show ?case unfolding eq by simp
qed

text \<open>\<open>precedes a b xs\<close>: \<open>a\<close> occurs in \<open>xs\<close> at an earlier position than \<open>b\<close>.\<close>

definition precedes :: "'a \<Rightarrow> 'a \<Rightarrow> 'a list \<Rightarrow> bool" where
  "precedes a b xs \<longleftrightarrow> (\<exists>pre mid post. xs = pre @ a # mid @ b # post)"

lemma topo_ok_precedes:
  assumes "topo_ok R out" "(a, b) \<in> R" "b \<in> set out"
  shows "precedes a b out"
proof -
  from assms(3) obtain j where j: "j < length out" "out ! j = b"
    by (auto simp: in_set_conv_nth)
  with assms(1,2) have "a \<in> set (take j out)" by (auto simp: topo_ok_def)
  then obtain pre mid where "take j out = pre @ a # mid" by (auto dest: split_list)
  moreover have "out = take j out @ b # drop (Suc j) out"
    using id_take_nth_drop[OF j(1)] j(2) by simp
  ultimately have "out = pre @ a # mid @ b # drop (Suc j) out" by simp
  then show ?thesis unfolding precedes_def by blast
qed

lemma topo_loops_post:
  assumes "acyclic (preds_of m)"
  shows "distinct (snd (topo_loop m seeds2 (topo_loop m seeds1 ({}, []))))"
    and "topo_ok (preds_of m) (snd (topo_loop m seeds2 (topo_loop m seeds1 ({}, []))))"
    and "set seeds1 \<union> set seeds2 \<subseteq> set (snd (topo_loop m seeds2 (topo_loop m seeds1 ({}, []))))"
    and "set (snd (topo_loop m seeds2 (topo_loop m seeds1 ({}, []))))
           \<subseteq> set seeds1 \<union> set seeds2 \<union> Domain (preds_of m)"
proof -
  let ?R = "preds_of m"
  let ?s0 = "({} :: 'a set, [] :: 'a list)"
  let ?s1 = "topo_loop m seeds1 ?s0"
  let ?s2 = "topo_loop m seeds2 ?s1"
  have inv0: "topo_inv ?R ?s0" by (simp add: topo_inv_def topo_ok_Nil)
  have pre0: "\<forall>g\<in>fst ?s0 - set (snd ?s0). \<forall>y\<in>set seeds1. (y, g) \<in> ?R\<^sup>+" by simp
  from topo_loop_post[OF assms(1) inv0 pre0]
  have p1: "topo_post ?R ?s0 ?s1" and y1: "set seeds1 \<subseteq> fst ?s1"
    and n1: "fst ?s1 - fst ?s0 \<subseteq> set seeds1 \<union> Domain ?R"
    by simp_all
  have inv1: "topo_inv ?R ?s1" and gray1: "fst ?s1 - set (snd ?s1) = {}"
    using p1 by (simp_all add: topo_post_def)
  have pre1: "\<forall>g\<in>fst ?s1 - set (snd ?s1). \<forall>y\<in>set seeds2. (y, g) \<in> ?R\<^sup>+"
    unfolding gray1 by simp
  from topo_loop_post[OF assms(1) inv1 pre1]
  have p2: "topo_post ?R ?s1 ?s2" and y2: "set seeds2 \<subseteq> fst ?s2"
    and n2: "fst ?s2 - fst ?s1 \<subseteq> set seeds2 \<union> Domain ?R"
    by simp_all
  have inv2: "topo_inv ?R ?s2" and sub2: "fst ?s1 \<subseteq> fst ?s2"
    and gray2: "fst ?s2 - set (snd ?s2) = {}"
    using p2 gray1 by (simp_all add: topo_post_def)
  have seen: "fst ?s2 = set (snd ?s2)"
    using inv2 gray2 by (auto simp: topo_inv_def)
  show "distinct (snd ?s2)" using inv2 by (simp add: topo_inv_def)
  show "topo_ok ?R (snd ?s2)" using inv2 by (simp add: topo_inv_def)
  show "set seeds1 \<union> set seeds2 \<subseteq> set (snd ?s2)"
    using y1 y2 sub2 unfolding seen[symmetric] by blast
  show "set (snd ?s2) \<subseteq> set seeds1 \<union> set seeds2 \<union> Domain ?R"
    using n1 n2 unfolding seen[symmetric] by auto
qed

lemma topo_sort_fwd_props:
  assumes "digraph_inv g" "acyclic (edges g)"
  shows "distinct (topo_sort_fwd g)" and "set (topo_sort_fwd g) = vertices g"
    and "(a, b) \<in> edges g \<Longrightarrow> precedes a b (topo_sort_fwd g)"
proof -
  have R: "preds_of (bck g) = edges g" using assms(1) by (simp add: edges_preds_bck)
  then have ac: "acyclic (preds_of (bck g))" using assms(2) by simp
  note p = topo_loops_post[OF ac, where ?seeds1.0 = "map fst (fwd g)"
      and ?seeds2.0 = "map fst (bck g)", folded topo_sort_fwd_def]
  show "distinct (topo_sort_fwd g)" by (rule p(1))
  have "Domain (edges g) \<subseteq> vertices g"
    using edges_vertices[OF assms(1)] by auto
  with p(3,4) show v: "set (topo_sort_fwd g) = vertices g"
    unfolding R by (auto simp: vertices_def)
  show "precedes a b (topo_sort_fwd g)" if "(a, b) \<in> edges g"
  proof (rule topo_ok_precedes[OF p(2)])
    show "(a, b) \<in> preds_of (bck g)" using that R by simp
    show "b \<in> set (topo_sort_fwd g)"
      unfolding v using edges_vertices[OF assms(1) that] by simp
  qed
qed

lemma topo_sort_bck_props:
  assumes "digraph_inv g" "acyclic (edges g)"
  shows "distinct (topo_sort_bck g)" and "set (topo_sort_bck g) = vertices g"
    and "(a, b) \<in> edges g \<Longrightarrow> precedes b a (topo_sort_bck g)"
proof -
  have R: "preds_of (fwd g) = (edges g)\<inverse>" by (simp add: edges_preds_of)
  then have ac: "acyclic (preds_of (fwd g))" using assms(2) by simp
  note p = topo_loops_post[OF ac, where ?seeds1.0 = "map fst (bck g)"
      and ?seeds2.0 = "map fst (fwd g)", folded topo_sort_bck_def]
  show "distinct (topo_sort_bck g)" by (rule p(1))
  have "Domain ((edges g)\<inverse>) \<subseteq> vertices g"
    using edges_vertices[OF assms(1)] by auto
  with p(3,4) show v: "set (topo_sort_bck g) = vertices g"
    unfolding R by (auto simp: vertices_def)
  show "precedes b a (topo_sort_bck g)" if "(a, b) \<in> edges g"
  proof (rule topo_ok_precedes[OF p(2)])
    show "(b, a) \<in> preds_of (fwd g)" using that R by simp
    show "a \<in> set (topo_sort_bck g)"
      unfolding v using edges_vertices[OF assms(1) that] by simp
  qed
qed

subsection \<open>Claim C5: the two topological sorts on acyclic graphs\<close>

text \<open>
  C5: for every acyclic graph (with the two mappings inverse to each other, as every
  sequence of graph operations leaves them), \<^verbatim>\<open>topo_sort_fwd\<close> yields every vertex
  exactly once, with \<open>a\<close> before \<open>b\<close> for every edge \<open>a \<rightarrow> b\<close>, and \<^verbatim>\<open>topo_sort_bck\<close>
  yields every vertex exactly once, with \<open>a\<close> after \<open>b\<close> for every edge \<open>a \<rightarrow> b\<close>.
\<close>

theorem topo_sort_acyclic:
  assumes "digraph_inv g" "acyclic (edges g)"
  shows "distinct (topo_sort_fwd g) \<and> set (topo_sort_fwd g) = vertices g \<and>
         (\<forall>(a, b)\<in>edges g. precedes a b (topo_sort_fwd g)) \<and>
         distinct (topo_sort_bck g) \<and> set (topo_sort_bck g) = vertices g \<and>
         (\<forall>(a, b)\<in>edges g. precedes b a (topo_sort_bck g))"
  using topo_sort_fwd_props[OF assms] topo_sort_bck_props[OF assms] by blast

lemma chain_graph_acyclic:
  "acyclic (edges (add_edge (add_edge Digraph ''c'' ''b'') ''b'' ''a''))"
proof -
  have "acyclic ({} :: (string \<times> string) set)" by (simp add: acyclic_def)
  then show ?thesis
    by (simp add: edges_add_edge edges_Digraph acyclic_insert rtrancl_insert)
qed

theorem topo_sort_acyclic_witness:
  "digraph_inv (add_edge (add_edge Digraph ''c'' ''b'') ''b'' ''a'') \<and>
   acyclic (edges (add_edge (add_edge Digraph ''c'' ''b'') ''b'' ''a'')) \<and>
   topo_sort_fwd (add_edge (add_edge Digraph ''c'' ''b'') ''b'' ''a'') = [''c'', ''b'', ''a''] \<and>
   topo_sort_bck (add_edge (add_edge Digraph ''c'' ''b'') ''b'' ''a'') = [''a'', ''b'', ''c''] \<and>
   set (topo_sort_fwd (add_edge (add_edge Digraph ''c'' ''b'') ''b'' ''a''))
     = vertices (add_edge (add_edge Digraph ''c'' ''b'') ''b'' ''a'') \<and>
   precedes ''c'' ''b'' (topo_sort_fwd (add_edge (add_edge Digraph ''c'' ''b'') ''b'' ''a'')) \<and>
   precedes ''b'' ''c'' (topo_sort_bck (add_edge (add_edge Digraph ''c'' ''b'') ''b'' ''a''))"
proof -
  let ?g = "add_edge (add_edge Digraph ''c'' ''b'') ''b'' ''a''"
  have h1: "digraph_inv ?g" by (intro digraph_inv_add_edge digraph_inv_Digraph)
  have h2: "acyclic (edges ?g)" by (rule chain_graph_acyclic)
  have e: "(''c'', ''b'') \<in> edges ?g" by (simp add: edges_add_edge)
  have f: "topo_sort_fwd ?g = [''c'', ''b'', ''a'']"
    by (simp add: topo_sort_fwd_def topo_dfs.simps add_edge_def Digraph_def dict_add_def
        set_add_def)
  have b: "topo_sort_bck ?g = [''a'', ''b'', ''c'']"
    by (simp add: topo_sort_bck_def topo_dfs.simps add_edge_def Digraph_def dict_add_def
        set_add_def)
  from topo_sort_acyclic[OF h1 h2] e
  have "set (topo_sort_fwd ?g) = vertices ?g \<and> precedes ''c'' ''b'' (topo_sort_fwd ?g)
          \<and> precedes ''b'' ''c'' (topo_sort_bck ?g)"
    by blast
  with h1 h2 f b show ?thesis by blast
qed

section \<open>The plugin manager of \<^verbatim>\<open>plugins/__init__.py\<close>\<close>

text \<open>
  Exceptions are values. Python chains an exception raised while another one is being
  handled to that one (\<^verbatim>\<open>__context__\<close>); every handler of this module reraises, so
  what reaches the caller is the last exception raised, chained to all earlier ones. A
  function that returns nothing is modelled as returning the list of the exceptions
  raised during the call, in the order they were raised: the empty list is a normal
  return, a non-empty list is the chain that propagates. A function that returns a value
  has a \<open>result\<close>.
\<close>

datatype exc =
  ValueError string
  | KeyError string
  | IndexError
  | ModuleNotFoundError string
  | PluginError string

datatype 'a result = Return 'a | Raise "exc list"

text \<open>
  A finalizer is code of a plugin: it acts on the world outside the manager and either
  returns or raises. It can read the registry \<^verbatim>\<open>finalizers\<close> of the manager: its first
  argument tells, for every identity, whether the registry has an entry for it at the
  time of the call. It is assumed not to call back into the manager.
\<close>

type_synonym 'w finalizer = "(string \<Rightarrow> bool) \<Rightarrow> 'w \<Rightarrow> exc option \<times> 'w"

text \<open>
  The module-level state: \<^verbatim>\<open>sys.modules\<close> (a module object is a number, its identity),
  \<^verbatim>\<open>deps\<close>, \<^verbatim>\<open>finalizers\<close>, \<^verbatim>\<open>import_stack\<close>, the world the plugins act on, and the
  next unused module identity.
\<close>

record 'w state =
  modules :: "string \<rightharpoonup> nat"
  deps :: "string digraph"
  finalizers :: "string \<rightharpoonup> 'w finalizer list"
  import_stack :: "string list"
  world :: 'w
  next_module :: nat

definition plugins_namespace :: string where
  "plugins_namespace = ''plugins''"

definition is_plugin :: "string \<Rightarrow> bool" where
  "is_plugin name = prefix (plugins_namespace @ ''.'') name"

definition current_plugin :: "'w state \<Rightarrow> string result" where
  "current_plugin st =
     (if length (import_stack st) = 0
      then Raise [ValueError ''not called during plugin initialization'']
      else Return (last (import_stack st)))"

text \<open>\<^verbatim>\<open>finalizer(fin)\<close>, the decorator that registers a finalizer.\<close>

definition finalizer :: "'w finalizer \<Rightarrow> 'w state \<Rightarrow> exc list \<times> 'w state" where
  "finalizer fin st =
     (case current_plugin st of
        Raise es \<Rightarrow> (es, st)
      | Return current \<Rightarrow>
          (let fs = (case finalizers st current of None \<Rightarrow> [] | Some l \<Rightarrow> l)
           in ([], st\<lparr>finalizers := (finalizers st)(current \<mapsto> fs @ [fin])\<rparr>)))"

text \<open>
  \<^verbatim>\<open>finalize_module\<close>. \<open>registered st\<close> is what a finalizer called in the state \<open>st\<close>
  reads in the registry (\<^verbatim>\<open>name in plugins.finalizers\<close>). \<open>cont_finalizers\<close> runs on what
  is left of the iterator
  \<^verbatim>\<open>gen\<close>: when \<^verbatim>\<open>fin()\<close> raises, the handler calls \<^verbatim>\<open>cont_finalizers()\<close> for the
  rest and reraises, which skips the \<^verbatim>\<open>del\<close> of the outer call; the \<^verbatim>\<open>del\<close> runs in
  the call that finds the iterator exhausted.
\<close>

definition registered :: "'w state \<Rightarrow> string \<Rightarrow> bool" where
  "registered st name = (case finalizers st name of None \<Rightarrow> False | Some fins \<Rightarrow> True)"

fun cont_finalizers :: "string \<Rightarrow> 'w finalizer list \<Rightarrow> 'w state \<Rightarrow> exc list \<times> 'w state" where
  "cont_finalizers name [] st = ([], st\<lparr>finalizers := (finalizers st)(name := None)\<rparr>)"
| "cont_finalizers name (fin # gen) st =
     (case fin (registered st) (world st) of
        (None, w) \<Rightarrow> cont_finalizers name gen (st\<lparr>world := w\<rparr>)
      | (Some e, w) \<Rightarrow>
          (case cont_finalizers name gen (st\<lparr>world := w\<rparr>) of
             (es, st') \<Rightarrow> (e # es, st')))"

definition finalize_module :: "string \<Rightarrow> 'w state \<Rightarrow> exc list \<times> 'w state" where
  "finalize_module name st =
     (case finalizers st name of
        None \<Rightarrow> ([], st)
      | Some fins \<Rightarrow> cont_finalizers name fins st)"

text \<open>
  \<^verbatim>\<open>unsafe_unload\<close>: the \<^verbatim>\<open>finally\<close> block runs whether \<^verbatim>\<open>finalize_module\<close> raised
  or not; \<^verbatim>\<open>del sys.modules[name]\<close> raises \<^verbatim>\<open>KeyError\<close> when the module is not
  loaded, and is not reached when \<^verbatim>\<open>del_edges_from\<close> raises.
\<close>

definition unsafe_unload :: "string \<Rightarrow> 'w state \<Rightarrow> exc list \<times> 'w state" where
  "unsafe_unload name st =
     (if \<not> is_plugin name then ([ValueError (name @ '' is not a plugin'')], st)
      else (case finalize_module name st of
              (es, st1) \<Rightarrow>
                (case del_edges_from (deps st1) name of
                   (Some k, d) \<Rightarrow> (es @ [KeyError k], st1\<lparr>deps := d\<rparr>)
                 | (None, d) \<Rightarrow>
                     (case modules st1 name of
                        None \<Rightarrow> (es @ [KeyError name], st1\<lparr>deps := d\<rparr>)
                      | Some m \<Rightarrow>
                          (es, st1\<lparr>deps := d, modules := (modules st1)(name := None)\<rparr>)))))"

text \<open>
  \<^verbatim>\<open>unload\<close>. \<open>cont_unload\<close> runs on what is left of the generator: when
  \<^verbatim>\<open>unsafe_unload(dep)\<close> raises, the handler calls \<^verbatim>\<open>cont_unload()\<close> for the rest,
  which ends with \<^verbatim>\<open>unsafe_unload(name)\<close>, and reraises.
\<close>

fun cont_unload :: "string \<Rightarrow> string list \<Rightarrow> 'w state \<Rightarrow> exc list \<times> 'w state" where
  "cont_unload name [] st = unsafe_unload name st"
| "cont_unload name (dep # gen) st =
     (if dep \<noteq> name
      then (case unsafe_unload dep st of
              ([], st1) \<Rightarrow> cont_unload name gen st1
            | (e # es, st1) \<Rightarrow>
                (case cont_unload name gen st1 of
                   (es', st2) \<Rightarrow> ((e # es) @ es', st2)))
      else cont_unload name gen st)"

definition unload :: "string \<Rightarrow> 'w state \<Rightarrow> exc list \<times> 'w state" where
  "unload name st = cont_unload name (topo_sort_fwd (subgraph_paths_to (deps st) name)) st"

text \<open>
  \<^verbatim>\<open>atexit_unload\<close>, over the list made of \<^verbatim>\<open>deps.topo_sort_fwd()\<close>.
\<close>

fun cont_atexit_unload :: "string list \<Rightarrow> 'w state \<Rightarrow> exc list \<times> 'w state" where
  "cont_atexit_unload [] st = ([], st)"
| "cont_atexit_unload (dep # unload_gen) st =
     (case unsafe_unload dep st of
        ([], st1) \<Rightarrow> cont_atexit_unload unload_gen st1
      | (e # es, st1) \<Rightarrow>
          (case cont_atexit_unload unload_gen st1 of
             (es', st2) \<Rightarrow> ((e # es) @ es', st2)))"

definition atexit_unload :: "'w state \<Rightarrow> exc list \<times> 'w state" where
  "atexit_unload st = cont_atexit_unload (topo_sort_fwd (deps st)) st"

subsection \<open>Initialization of a plugin and the import hook\<close>



text \<open>
  The loop of \<^verbatim>\<open>trace_import\<close> over the dotted prefixes of the imported name, and
  \<^verbatim>\<open>trace_import\<close> itself; the import it delegates to (\<^verbatim>\<open>builtins.__import__\<close>) is a
  parameter.
\<close>

type_synonym 'w importer = "string \<Rightarrow> 'w state \<Rightarrow> nat result \<times> 'w state"

fun trace_edges :: "string list \<Rightarrow> 'w state \<Rightarrow> exc list \<times> 'w state" where
  "trace_edges [] st = ([], st)"
| "trace_edges (parent # parents) st =
     (if is_plugin parent
      then (case current_plugin st of
              Raise es \<Rightarrow> (es, st)
            | Return current \<Rightarrow>
                trace_edges parents (st\<lparr>deps := add_edge (deps st) current parent\<rparr>))
      else trace_edges parents st)"


text \<open>\<^verbatim>\<open>import_stack.pop()\<close>, which raises \<^verbatim>\<open>IndexError\<close> on an empty list.\<close>

definition pop_import_stack :: "'w state \<Rightarrow> exc list \<times> 'w state" where
  "pop_import_stack st =
     (if import_stack st = [] then ([IndexError], st)
      else ([], st\<lparr>import_stack := butlast (import_stack st)\<rparr>))"

text \<open>
  \<^verbatim>\<open>PluginLoader.exec_module\<close>. The body of the plugin, run by
  \<^verbatim>\<open>super().exec_module(mod)\<close>, is code outside the manager: any function from states
  to raised exceptions and states.
\<close>

type_synonym 'w body = "'w state \<Rightarrow> exc list \<times> 'w state"

definition exec_module :: "'w body \<Rightarrow> string \<Rightarrow> 'w state \<Rightarrow> exc list \<times> 'w state" where
  "exec_module body name st =
     (case body (st\<lparr>import_stack := import_stack st @ [name]\<rparr>) of
        ([], st2) \<Rightarrow> pop_import_stack st2
      | (e # es, st2) \<Rightarrow>
          (case finalize_module name st2 of
             (fs, st3) \<Rightarrow>
               (case del_edges_from (deps st3) name of
                  (k, d) \<Rightarrow>
                    (case pop_import_stack (st3\<lparr>deps := d\<rparr>) of
                       (ps, st4) \<Rightarrow>
                         ((e # es) @ fs @ (case k of None \<Rightarrow> [] | Some y \<Rightarrow> [KeyError y]) @ ps,
                          st4)))))"

text \<open>
  The host module system, \<^verbatim>\<open>importlib.import_module\<close> with \<^verbatim>\<open>PluginFinder\<close> on
  \<^verbatim>\<open>sys.meta_path\<close>, is not code of the repository. The functions that call it take it
  as a parameter. \<open>import_module\<close> is the instance used in the scenarios, for a table
  \<open>sources\<close> of plugin bodies: a loaded module is returned as it is; otherwise a new
  module object is stored in \<^verbatim>\<open>sys.modules\<close>, the loader runs its body, and when that
  raises the module is taken out of \<^verbatim>\<open>sys.modules\<close> again. Names outside the plugin
  namespace, which \<^verbatim>\<open>PluginFinder.find_spec\<close> leaves to the other finders, are not
  found.
\<close>

definition import_module :: "(string \<rightharpoonup> 'w body) \<Rightarrow> 'w importer" where
  "import_module sources name st =
     (case modules st name of
        Some m \<Rightarrow> (Return m, st)
      | None \<Rightarrow>
          (if \<not> is_plugin name then (Raise [ModuleNotFoundError name], st)
           else (case sources name of
                   None \<Rightarrow> (Raise [ModuleNotFoundError name], st)
                 | Some body \<Rightarrow>
                     (case exec_module body name
                             (st\<lparr>modules := (modules st)(name \<mapsto> next_module st),
                                 next_module := Suc (next_module st)\<rparr>) of
                        ([], st2) \<Rightarrow>
                          (case modules st2 name of
                             Some m \<Rightarrow> (Return m, st2)
                           | None \<Rightarrow> (Raise [KeyError name], st2))
                      | (e # es, st2) \<Rightarrow>
                          (Raise (e # es), st2\<lparr>modules := (modules st2)(name := None)\<rparr>)))))"

subsection \<open>\<^verbatim>\<open>load\<close> and \<^verbatim>\<open>reload\<close>\<close>

definition load :: "'w importer \<Rightarrow> string \<Rightarrow> 'w state \<Rightarrow> nat result \<times> 'w state" where
  "load imp name st =
     (if \<not> is_plugin name then (Raise [ValueError (name @ '' is not a plugin'')], st)
      else (case modules st name of
              Some m \<Rightarrow> (Return m, st)
            | None \<Rightarrow> imp name st))"

text \<open>
  \<^verbatim>\<open>cont_reload\<close> of \<^verbatim>\<open>reload\<close>, on what is left of \<^verbatim>\<open>reload_gen\<close>. The sets
  \<^verbatim>\<open>unload_success\<close> and \<^verbatim>\<open>reload_success\<close> are closure variables: the first is only
  read here, the second is passed along and returned.
\<close>

fun cont_reload ::
  "'w importer \<Rightarrow> string digraph \<Rightarrow> string set \<Rightarrow> string list \<Rightarrow> string set \<Rightarrow> 'w state
     \<Rightarrow> exc list \<times> string set \<times> 'w state" where
  "cont_reload imp reloads unload_success [] reload_success st = ([], reload_success, st)"
| "cont_reload imp reloads unload_success (dep # reload_gen) reload_success st =
     (if dep \<in> unload_success \<and> (\<forall>m\<in>set (edges_from reloads dep). m \<in> reload_success)
      then (case imp dep st of
              (Return ret, st1) \<Rightarrow>
                cont_reload imp reloads unload_success reload_gen (insert dep reload_success) st1
            | (Raise es, st1) \<Rightarrow>
                (case cont_reload imp reloads unload_success reload_gen reload_success st1 of
                   (es', rs, st2) \<Rightarrow> (es @ es', rs, st2)))
      else cont_reload imp reloads unload_success reload_gen reload_success st)"

text \<open>
  \<^verbatim>\<open>cont_unload\<close> of \<^verbatim>\<open>reload\<close>, on what is left of \<^verbatim>\<open>unload_gen\<close>. When the
  generator is exhausted: \<^verbatim>\<open>unsafe_unload(name)\<close>, whose failure runs \<^verbatim>\<open>cont_reload()\<close>
  and reraises; then the import of \<^verbatim>\<open>name\<close>, with \<^verbatim>\<open>cont_reload()\<close> in its
  \<^verbatim>\<open>finally\<close> block. \<^verbatim>\<open>reload_success\<close> is still empty when the generator is
  exhausted.
\<close>

fun reload_cont_unload ::
  "'w importer \<Rightarrow> string \<Rightarrow> string digraph \<Rightarrow> string list \<Rightarrow> string list \<Rightarrow> string set
     \<Rightarrow> 'w state \<Rightarrow> nat result \<times> 'w state" where
  "reload_cont_unload imp name reloads reload_gen [] unload_success st =
     (case unsafe_unload name st of
        (e # es, st1) \<Rightarrow>
          (case cont_reload imp reloads unload_success reload_gen {} st1 of
             (es', rs, st2) \<Rightarrow> (Raise ((e # es) @ es'), st2))
      | ([], st1) \<Rightarrow>
          (case imp name st1 of
             (Raise es, st2) \<Rightarrow>
               (case cont_reload imp reloads unload_success reload_gen {} st2 of
                  (es', rs, st3) \<Rightarrow> (Raise (es @ es'), st3))
           | (Return ret, st2) \<Rightarrow>
               (case cont_reload imp reloads unload_success reload_gen {name} st2 of
                  ([], rs, st3) \<Rightarrow> (Return ret, st3)
                | (e # es', rs, st3) \<Rightarrow> (Raise (e # es'), st3))))"
| "reload_cont_unload imp name reloads reload_gen (dep # unload_gen) unload_success st =
     (if dep \<noteq> name
      then (case unsafe_unload dep st of
              ([], st1) \<Rightarrow>
                reload_cont_unload imp name reloads reload_gen unload_gen
                  (insert dep unload_success) st1
            | (e # es, st1) \<Rightarrow>
                (case reload_cont_unload imp name reloads reload_gen unload_gen
                        unload_success st1 of
                   (Return ret, st2) \<Rightarrow> (Raise (e # es), st2)
                 | (Raise es', st2) \<Rightarrow> (Raise ((e # es) @ es'), st2)))
      else reload_cont_unload imp name reloads reload_gen unload_gen unload_success st)"

definition reload :: "'w importer \<Rightarrow> string \<Rightarrow> 'w state \<Rightarrow> nat result \<times> 'w state" where
  "reload imp name st =
     (let reloads = subgraph_paths_to (deps st) name
      in reload_cont_unload imp name reloads (topo_sort_bck reloads) (topo_sort_fwd reloads) {} st)"

subsection \<open>Claim C3: finalizing runs every registered action\<close>

text \<open>
  The explicit accumulator of the specification (section 9): \<open>run_world reg fins w\<close> is
  the world after every action of \<open>fins\<close> has run once, in order, whether it raised or
  not, each of them reading \<open>reg\<close> in the registry, and \<open>run_errors reg fins w\<close> collects
  the errors the actions raise on the way.
\<close>

fun run_world :: "(string \<Rightarrow> bool) \<Rightarrow> 'w finalizer list \<Rightarrow> 'w \<Rightarrow> 'w" where
  "run_world reg [] w = w"
| "run_world reg (fin # fins) w = run_world reg fins (snd (fin reg w))"

fun run_errors :: "(string \<Rightarrow> bool) \<Rightarrow> 'w finalizer list \<Rightarrow> 'w \<Rightarrow> exc list" where
  "run_errors reg [] w = []"
| "run_errors reg (fin # fins) w =
     (case fst (fin reg w) of None \<Rightarrow> [] | Some e \<Rightarrow> [e])
       @ run_errors reg fins (snd (fin reg w))"

lemma registered_world [simp]: "registered (st\<lparr>world := w\<rparr>) = registered st"
  by (simp add: registered_def fun_eq_iff)

lemma cont_finalizers_run:
  "cont_finalizers name fins st =
     (run_errors (registered st) fins (world st),
      st\<lparr>world := run_world (registered st) fins (world st),
         finalizers := (finalizers st)(name := None)\<rparr>)"
proof (induction fins arbitrary: st)
  case Nil
  show ?case by (simp add: fun_upd_def)
next
  case (Cons fin fins)
  obtain r w where fw: "fin (registered st) (world st) = (r, w)"
    by (cases "fin (registered st) (world st)")
  show ?case
    by (cases r) (simp_all add: fw Cons.IH fun_upd_def)
qed

lemma cont_finalizers_append:
  "cont_finalizers name (pre @ post) st =
     (case cont_finalizers name post (st\<lparr>world := run_world (registered st) pre (world st)\<rparr>) of
        (es, st') \<Rightarrow> (run_errors (registered st) pre (world st) @ es, st'))"
proof (induction pre arbitrary: st)
  case Nil
  show ?case by simp
next
  case (Cons fin pre)
  obtain r w where fw: "fin (registered st) (world st) = (r, w)"
    by (cases "fin (registered st) (world st)")
  show ?case
    by (cases r) (simp_all add: fw Cons.IH split: prod.splits)
qed

lemma run_errors_append:
  "run_errors reg (pre @ post) w
     = run_errors reg pre w @ run_errors reg post (run_world reg pre w)"
  by (induction pre arbitrary: w) simp_all

text \<open>
  The entry is deleted after the last action and not before. A variant of
  \<^verbatim>\<open>finalize_module\<close> that deletes the entry first and then runs the actions is told
  apart from the code by an action that reads the registry.
\<close>

definition finalize_module_delete_first :: "string \<Rightarrow> 'w state \<Rightarrow> exc list \<times> 'w state" where
  "finalize_module_delete_first name st =
     (case finalizers st name of
        None \<Rightarrow> ([], st)
      | Some fins \<Rightarrow> cont_finalizers name fins (st\<lparr>finalizers := (finalizers st)(name := None)\<rparr>))"

definition entry_probe :: "string \<Rightarrow> string list finalizer" where
  "entry_probe name reg w = (None, w @ [if reg name then ''entry present'' else ''entry removed''])"

definition probe_state :: "string list state" where
  "probe_state =
     \<lparr>modules = [''plugins.p'' \<mapsto> 0], deps = Digraph,
      finalizers = [''plugins.p'' \<mapsto> [entry_probe ''plugins.p'']],
      import_stack = [], world = [], next_module = 1\<rparr>"

lemma finalize_module_not_delete_first:
  "world (snd (finalize_module ''plugins.p'' probe_state)) = [''entry present'']"
  "world (snd (finalize_module_delete_first ''plugins.p'' probe_state)) = [''entry removed'']"
  by (simp_all add: finalize_module_def finalize_module_delete_first_def probe_state_def
      entry_probe_def registered_def)

text \<open>
  C3: when \<open>fins\<close> is registered for \<open>name\<close>, \<^verbatim>\<open>finalize_module(name)\<close> runs every
  action once, in registration order, each on the world its predecessors left, whether
  or not they raised. Every action is called with the registry as it is before the call
  of \<^verbatim>\<open>finalize_module\<close>, in which \<open>name\<close> has its entry: the entry is deleted after the
  last action has been attempted and not before (after any prefix \<open>pre\<close> of the actions
  the state differs from the first one in the world only, it still has the entry, and
  the rest runs from there); in the state returned the entry is gone. Every error an
  action raises at its turn is among the errors that propagate, and the first one raised
  is the first.
\<close>

theorem finalize_module_runs_all:
  assumes "finalizers st name = Some fins"
  shows "finalize_module name st =
           (run_errors (registered st) fins (world st),
            st\<lparr>world := run_world (registered st) fins (world st),
               finalizers := (finalizers st)(name := None)\<rparr>) \<and>
         registered st name \<and>
         \<not> registered (snd (finalize_module name st)) name \<and>
         (\<forall>pre post. fins = pre @ post \<longrightarrow>
            registered (st\<lparr>world := run_world (registered st) pre (world st)\<rparr>) name \<and>
            finalizers (st\<lparr>world := run_world (registered st) pre (world st)\<rparr>) name = Some fins \<and>
            finalize_module name st =
              (case cont_finalizers name post
                      (st\<lparr>world := run_world (registered st) pre (world st)\<rparr>) of
                 (es, st') \<Rightarrow> (run_errors (registered st) pre (world st) @ es, st'))) \<and>
         (\<forall>pre fin post e. fins = pre @ fin # post \<and>
              fst (fin (registered st) (run_world (registered st) pre (world st))) = Some e \<longrightarrow>
            e \<in> set (fst (finalize_module name st)) \<and>
            (run_errors (registered st) pre (world st) = []
               \<longrightarrow> hd (fst (finalize_module name st)) = e))"
proof -
  have eq: "finalize_module name st =
           (run_errors (registered st) fins (world st),
            st\<lparr>world := run_world (registered st) fins (world st),
               finalizers := (finalizers st)(name := None)\<rparr>)"
    using assms by (simp add: finalize_module_def cont_finalizers_run)
  have reg: "registered st name" using assms by (simp add: registered_def)
  have gone: "\<not> registered (snd (finalize_module name st)) name"
    unfolding eq by (simp add: registered_def)
  have pre: "\<forall>pre post. fins = pre @ post \<longrightarrow>
            registered (st\<lparr>world := run_world (registered st) pre (world st)\<rparr>) name \<and>
            finalizers (st\<lparr>world := run_world (registered st) pre (world st)\<rparr>) name = Some fins \<and>
            finalize_module name st =
              (case cont_finalizers name post
                      (st\<lparr>world := run_world (registered st) pre (world st)\<rparr>) of
                 (es, st') \<Rightarrow> (run_errors (registered st) pre (world st) @ es, st'))"
    using assms reg by (simp add: finalize_module_def cont_finalizers_append)
  have errs: "\<forall>pre fin post e. fins = pre @ fin # post \<and>
              fst (fin (registered st) (run_world (registered st) pre (world st))) = Some e \<longrightarrow>
            e \<in> set (fst (finalize_module name st)) \<and>
            (run_errors (registered st) pre (world st) = []
               \<longrightarrow> hd (fst (finalize_module name st)) = e)"
  proof (intro allI impI)
    fix pre fin post e
    assume a: "fins = pre @ fin # post \<and>
      fst (fin (registered st) (run_world (registered st) pre (world st))) = Some e"
    have r: "run_errors (registered st) fins (world st) =
               run_errors (registered st) pre (world st) @
               e # run_errors (registered st) post
                     (snd (fin (registered st) (run_world (registered st) pre (world st))))"
      using a by (simp add: run_errors_append)
    show "e \<in> set (fst (finalize_module name st)) \<and>
            (run_errors (registered st) pre (world st) = []
               \<longrightarrow> hd (fst (finalize_module name st)) = e)"
      unfolding eq fst_conv r by simp
  qed
  from eq reg gone pre errs show ?thesis by (intro conjI)
qed

text \<open>
  The scenario of the specification: the first of three finalizers raises; all three run,
  in order (each appends to the world its name and what it reads in the registry), each
  of them finds the entry of the plugin in the registry, the entry is gone afterwards, and
  the error propagates.
\<close>

theorem finalize_module_runs_all_witness:
  "finalize_module ''plugins.p''
     \<lparr>modules = [''plugins.p'' \<mapsto> 0], deps = Digraph,
      finalizers = [''plugins.p'' \<mapsto>
        [\<lambda>reg w. (Some (PluginError ''f1''), w @ [(''f1'', reg ''plugins.p'')]),
         \<lambda>reg w. (None, w @ [(''f2'', reg ''plugins.p'')]),
         \<lambda>reg w. (None, w @ [(''f3'', reg ''plugins.p'')])]],
      import_stack = [], world = [], next_module = 1\<rparr>
   = ([PluginError ''f1''],
      \<lparr>modules = [''plugins.p'' \<mapsto> 0], deps = Digraph,
       finalizers = [''plugins.p'' \<mapsto>
        [\<lambda>reg w. (Some (PluginError ''f1''), w @ [(''f1'', reg ''plugins.p'')]),
         \<lambda>reg w. (None, w @ [(''f2'', reg ''plugins.p'')]),
         \<lambda>reg w. (None, w @ [(''f3'', reg ''plugins.p'')])]](''plugins.p'' := None),
       import_stack = [],
       world = [(''f1'', True), (''f2'', True), (''f3'', True)], next_module = 1\<rparr>)"
proof -
  let ?fins = "[\<lambda>reg w. (Some (PluginError ''f1''), w @ [(''f1'', reg ''plugins.p'')]),
         \<lambda>reg w. (None, w @ [(''f2'', reg ''plugins.p'')]),
         \<lambda>reg w. (None, w @ [(''f3'', reg ''plugins.p'')])]
         :: (string \<times> bool) list finalizer list"
  let ?st = "\<lparr>modules = [''plugins.p'' \<mapsto> 0], deps = Digraph,
      finalizers = [''plugins.p'' \<mapsto> ?fins],
      import_stack = [], world = [], next_module = 1\<rparr>"
  have h: "finalizers ?st ''plugins.p'' = Some ?fins" by simp
  from finalize_module_runs_all[OF h] show ?thesis by (simp add: registered_def)
qed

lemma finalize_module_fields:
  "modules (snd (finalize_module name st)) = modules st"
  "deps (snd (finalize_module name st)) = deps st"
  "import_stack (snd (finalize_module name st)) = import_stack st"
  "next_module (snd (finalize_module name st)) = next_module st"
  "finalizers (snd (finalize_module name st)) = (finalizers st)(name := None)"
  by (cases "finalizers st name"; simp add: finalize_module_def cont_finalizers_run fun_upd_idem)+

subsection \<open>Claim C10: \<^verbatim>\<open>unsafe_unload\<close> cleans up even when a finalizer raises\<close>

text \<open>
  C10: for a loaded plugin \<open>name\<close> (and a dependency graph whose two mappings are inverse
  to each other), \<^verbatim>\<open>unsafe_unload(name)\<close> propagates exactly the errors of
  \<^verbatim>\<open>finalize_module(name)\<close>, whatever they are, and in the state it leaves the outgoing
  edges of \<open>name\<close> are deleted, \<open>name\<close> is out of \<^verbatim>\<open>sys.modules\<close> and its finalizer entry
  is gone: the error of a finalizer reaches the caller with both deletions done.
\<close>

theorem unsafe_unload_cleans_up:
  assumes "is_plugin name" "modules st name = Some m" "digraph_inv (deps st)"
  shows "fst (unsafe_unload name st) = fst (finalize_module name st) \<and>
         modules (snd (unsafe_unload name st)) = (modules st)(name := None) \<and>
         deps (snd (unsafe_unload name st)) = snd (del_edges_from (deps st) name) \<and>
         edges (deps (snd (unsafe_unload name st))) = {(a, b). (a, b) \<in> edges (deps st) \<and> a \<noteq> name} \<and>
         digraph_inv (deps (snd (unsafe_unload name st))) \<and>
         finalizers (snd (unsafe_unload name st)) = (finalizers st)(name := None) \<and>
         world (snd (unsafe_unload name st)) = world (snd (finalize_module name st))"
proof -
  obtain es st1 where f: "finalize_module name st = (es, st1)"
    by (cases "finalize_module name st")
  have st1: "modules st1 = modules st" "deps st1 = deps st"
    "finalizers st1 = (finalizers st)(name := None)"
    using finalize_module_fields[of name st] by (simp_all add: f)
  obtain d where d: "del_edges_from (deps st) name = (None, d)"
    using del_edges_from_inv(1)[OF assms(3), of name]
    by (cases "del_edges_from (deps st) name") auto
  have u: "unsafe_unload name st = (es, st1\<lparr>deps := d, modules := (modules st)(name := None)\<rparr>)"
    using assms(1,2) by (simp add: unsafe_unload_def f st1 d)
  have e: "edges d = {(a, b). (a, b) \<in> edges (deps st) \<and> a \<noteq> name}" "digraph_inv d"
    using del_edges_from_inv(2,3)[OF assms(3), of name] by (simp_all add: d)
  show ?thesis
    unfolding u f using st1 e by (simp add: d)
qed

theorem unsafe_unload_cleans_up_witness:
  "is_plugin ''plugins.p'' \<and>
   (let st = \<lparr>modules = [''plugins.p'' \<mapsto> 0, ''plugins.q'' \<mapsto> 1],
              deps = add_edge Digraph ''plugins.p'' ''plugins.q'',
              finalizers = [''plugins.p'' \<mapsto> [\<lambda>reg w. (Some (PluginError ''boom''), w @ [''ran''])]],
              import_stack = [], world = [], next_module = 2\<rparr>
    in fst (unsafe_unload ''plugins.p'' st) = [PluginError ''boom''] \<and>
       modules (snd (unsafe_unload ''plugins.p'' st)) ''plugins.p'' = None \<and>
       edges (deps (snd (unsafe_unload ''plugins.p'' st))) = {} \<and>
       finalizers (snd (unsafe_unload ''plugins.p'' st)) ''plugins.p'' = None \<and>
       world (snd (unsafe_unload ''plugins.p'' st)) = [''ran''])"
proof -
  let ?st = "\<lparr>modules = [''plugins.p'' \<mapsto> 0, ''plugins.q'' \<mapsto> 1],
              deps = add_edge Digraph ''plugins.p'' ''plugins.q'',
              finalizers = [''plugins.p'' \<mapsto> [\<lambda>reg w. (Some (PluginError ''boom''), w @ [''ran''])]],
              import_stack = [], world = ([] :: string list), next_module = 2\<rparr>"
  have h1: "is_plugin ''plugins.p''" by (simp add: is_plugin_def plugins_namespace_def)
  have h2: "modules ?st ''plugins.p'' = Some 0" by simp
  have h3: "digraph_inv (deps ?st)" by (simp add: digraph_inv_add_edge digraph_inv_Digraph)
  have f: "finalize_module ''plugins.p'' ?st =
     ([PluginError ''boom''], ?st\<lparr>world := [''ran''], finalizers := (finalizers ?st)(''plugins.p'' := None)\<rparr>)"
    by (simp add: finalize_module_def)
  note c = unsafe_unload_cleans_up[OF h1 h2 h3]
  have c1: "fst (unsafe_unload ''plugins.p'' ?st) = [PluginError ''boom'']"
    using c f by simp
  have c2: "modules (snd (unsafe_unload ''plugins.p'' ?st)) ''plugins.p'' = None"
    using c by simp
  have "edges (deps (snd (unsafe_unload ''plugins.p'' ?st)))
          = {(a, b). (a, b) \<in> edges (deps ?st) \<and> a \<noteq> ''plugins.p''}"
    using c by blast
  then have c3: "edges (deps (snd (unsafe_unload ''plugins.p'' ?st))) = {}"
    by (auto simp: edges_add_edge edges_Digraph)
  have c4: "finalizers (snd (unsafe_unload ''plugins.p'' ?st)) ''plugins.p'' = None"
    using c by simp
  have c5: "world (snd (unsafe_unload ''plugins.p'' ?st)) = [''ran'']"
    using c f by simp
  from h1 c1 c2 c3 c4 c5 show ?thesis unfolding Let_def by blast
qed

subsection \<open>Claim C9: loading a loaded plugin again\<close>

text \<open>
  C9: when the plugin \<open>name\<close> is in \<^verbatim>\<open>sys.modules\<close>, \<^verbatim>\<open>load(name)\<close> returns the
  registered module object and changes nothing: the registry, the dependency graph and
  everything else stay as they are, whatever the host import would do. If the state is
  the one a first call of \<^verbatim>\<open>load(name)\<close> returned in, the registered object is the one
  that call returned.
\<close>

theorem load_loaded_unchanged:
  assumes "is_plugin name" "modules st name = Some m"
  shows "load imp name st = (Return m, st) \<and>
         (\<forall>sources st0 m'. load (import_module sources) name st0 = (Return m', st) \<longrightarrow> m' = m)"
proof
  show "load imp name st = (Return m, st)"
    using assms by (simp add: load_def)
  show "\<forall>sources st0 m'. load (import_module sources) name st0 = (Return m', st) \<longrightarrow> m' = m"
  proof (intro allI impI)
    fix sources :: "string \<rightharpoonup> 'a body" and st0 m'
    assume l: "load (import_module sources) name st0 = (Return m', st)"
    have "modules st name = Some m'"
    proof (cases "modules st0 name")
      case (Some m0)
      with l assms(1) show ?thesis by (simp add: load_def)
    next
      case None
      with l assms(1) show ?thesis
        by (auto simp: load_def import_module_def split: option.splits prod.splits list.splits)
    qed
    with assms(2) show "m' = m" by simp
  qed
qed

theorem load_loaded_unchanged_witness:
  "is_plugin ''plugins.p'' \<and>
   load (import_module Map.empty) ''plugins.p''
     \<lparr>modules = [''plugins.p'' \<mapsto> 0], deps = Digraph, finalizers = Map.empty,
      import_stack = [], world = (), next_module = 1\<rparr>
   = (Return 0,
      \<lparr>modules = [''plugins.p'' \<mapsto> 0], deps = Digraph, finalizers = Map.empty,
       import_stack = [], world = (), next_module = 1\<rparr>)"
proof -
  have h1: "is_plugin ''plugins.p''" by (simp add: is_plugin_def plugins_namespace_def)
  have h2: "modules \<lparr>modules = [''plugins.p'' \<mapsto> 0], deps = Digraph, finalizers = Map.empty,
      import_stack = [], world = (), next_module = 1\<rparr> ''plugins.p'' = Some 0" by simp
  from load_loaded_unchanged[OF h1 h2, of "import_module Map.empty"] h1 show ?thesis by blast
qed

subsection \<open>Claim C8: identities outside the plugin namespace\<close>

lemma topo_sort_fwd_Digraph: "topo_sort_fwd Digraph = []"
  by (simp add: topo_sort_fwd_def Digraph_def)

lemma topo_sort_bck_Digraph: "topo_sort_bck Digraph = []"
  by (simp add: topo_sort_bck_def Digraph_def)

lemma subgraph_paths_to_no_edges:
  assumes "edges_to g x = []"
  shows "subgraph_paths_to g x = Digraph"
proof (cases "map_of (bck g) x")
  case None
  then show ?thesis by (simp add: subgraph_paths_to_def sub_dfs.simps)
next
  case (Some ys)
  with assms have "ys = []" by (simp add: edges_to_def)
  with Some show ?thesis by (simp add: subgraph_paths_to_def sub_dfs.simps)
qed

text \<open>
  The only call of \<^verbatim>\<open>add_edge\<close> on \<^verbatim>\<open>deps\<close> is in \<^verbatim>\<open>trace_import\<close>, under the test
  \<^verbatim>\<open>is_plugin(parent)\<close>: every edge of \<^verbatim>\<open>deps\<close> ends in a plugin, and the loop keeps
  that and the inverse mappings.
\<close>

lemma trace_edges_targets:
  assumes "digraph_inv (deps st)" "\<forall>(a, b)\<in>edges (deps st). is_plugin b"
  shows "digraph_inv (deps (snd (trace_edges parents st))) \<and>
         (\<forall>(a, b)\<in>edges (deps (snd (trace_edges parents st))). is_plugin b)"
  using assms
proof (induction parents arbitrary: st)
  case Nil
  then show ?case by simp
next
  case (Cons parent parents)
  show ?case
  proof (cases "is_plugin parent")
    case False
    with Cons show ?thesis by simp
  next
    case True
    show ?thesis
    proof (cases "current_plugin st")
      case (Raise es)
      with True Cons.prems show ?thesis by simp
    next
      case (Return current)
      let ?st = "st\<lparr>deps := add_edge (deps st) current parent\<rparr>"
      have "digraph_inv (deps ?st)" "\<forall>(a, b)\<in>edges (deps ?st). is_plugin b"
        using Cons.prems True by (simp_all add: digraph_inv_add_edge edges_add_edge)
      from Cons.IH[OF this] True Return show ?thesis by simp
    qed
  qed
qed

text \<open>
  C8: for an identity \<open>name\<close> outside the plugin namespace (in a state whose dependency
  graph is as the manager builds it), \<^verbatim>\<open>load\<close>, \<^verbatim>\<open>unload\<close> and \<^verbatim>\<open>reload\<close> each raise
  the \<^verbatim>\<open>ValueError\<close> "... is not a plugin", alone, and leave the state as it was.
\<close>

theorem non_plugin_usage_error:
  assumes "\<not> is_plugin name" "digraph_inv (deps st)" "\<forall>(a, b)\<in>edges (deps st). is_plugin b"
  shows "load imp name st = (Raise [ValueError (name @ '' is not a plugin'')], st) \<and>
         unload name st = ([ValueError (name @ '' is not a plugin'')], st) \<and>
         reload imp name st = (Raise [ValueError (name @ '' is not a plugin'')], st)"
proof -
  have "\<not> (\<exists>y. (y, name) \<in> edges (deps st))" using assms(1,3) by blast
  then have "edges_to (deps st) name = []"
    using edges_to_nonempty[OF assms(2), of name] by blast
  then have sub: "subgraph_paths_to (deps st) name = Digraph"
    by (rule subgraph_paths_to_no_edges)
  have u: "unsafe_unload name st = ([ValueError (name @ '' is not a plugin'')], st)"
    using assms(1) by (simp add: unsafe_unload_def)
  show ?thesis
    using assms(1)
    by (simp add: load_def unload_def reload_def sub topo_sort_fwd_Digraph topo_sort_bck_Digraph u)
qed

theorem non_plugin_usage_error_witness:
  "\<not> is_plugin ''util.digraph'' \<and>
   (let st = \<lparr>modules = [''plugins.p'' \<mapsto> 0, ''plugins.q'' \<mapsto> 1],
              deps = add_edge Digraph ''plugins.p'' ''plugins.q'', finalizers = Map.empty,
              import_stack = [], world = (), next_module = 2\<rparr>
    in digraph_inv (deps st) \<and>
       load (import_module Map.empty) ''util.digraph'' st
         = (Raise [ValueError ''util.digraph is not a plugin''], st) \<and>
       unload ''util.digraph'' st = ([ValueError ''util.digraph is not a plugin''], st) \<and>
       reload (import_module Map.empty) ''util.digraph'' st
         = (Raise [ValueError ''util.digraph is not a plugin''], st))"
proof -
  let ?st = "\<lparr>modules = [''plugins.p'' \<mapsto> 0, ''plugins.q'' \<mapsto> 1],
              deps = add_edge Digraph ''plugins.p'' ''plugins.q'', finalizers = Map.empty,
              import_stack = [], world = (), next_module = 2\<rparr>"
  have h1: "\<not> is_plugin ''util.digraph''" by (simp add: is_plugin_def plugins_namespace_def)
  have h2: "digraph_inv (deps ?st)" by (simp add: digraph_inv_add_edge digraph_inv_Digraph)
  have h3: "\<forall>(a, b)\<in>edges (deps ?st). is_plugin b"
    by (simp add: edges_add_edge edges_Digraph is_plugin_def plugins_namespace_def)
  from non_plugin_usage_error[OF h1 h2 h3, of "import_module Map.empty"] h1 h2
  show ?thesis unfolding Let_def by simp
qed

subsection \<open>The topological sorts on graphs with cycles\<close>

text \<open>
  Without acyclicity the traversal still yields every vertex exactly once: the part of
  \<open>topo_post\<close> that does not speak of the order.
\<close>

definition topo_basic :: "'a set \<times> 'a list \<Rightarrow> 'a set \<times> 'a list \<Rightarrow> bool" where
  "topo_basic s s' \<longleftrightarrow>
     set (snd s') \<subseteq> fst s' \<and> distinct (snd s') \<and> fst s \<subseteq> fst s' \<and>
     fst s' - set (snd s') = fst s - set (snd s)"

lemma topo_dfs_basic:
  "set (snd s) \<subseteq> fst s \<Longrightarrow> distinct (snd s) \<Longrightarrow>
     topo_basic s (topo_dfs m x s) \<and> x \<in> fst (topo_dfs m x s) \<and>
     fst (topo_dfs m x s) - fst s \<subseteq> insert x (Domain (preds_of m))"
  and topo_loop_basic:
  "set (snd s) \<subseteq> fst s \<Longrightarrow> distinct (snd s) \<Longrightarrow>
     topo_basic s (topo_loop m ys s) \<and> set ys \<subseteq> fst (topo_loop m ys s) \<and>
     fst (topo_loop m ys s) - fst s \<subseteq> set ys \<union> Domain (preds_of m)"
proof (induction m x s and m ys s rule: topo_dfs_topo_loop.induct)
  case (1 m x seen out)
  let ?R = "preds_of m"
  have out: "set out \<subseteq> seen" "distinct out" using 1(2,3) by simp_all
  show ?case
  proof (cases "x \<in> seen")
    case True
    then show ?thesis using out by (simp add: topo_dfs.simps topo_basic_def)
  next
    case False
    then have xout: "x \<notin> set out" using out(1) by blast
    show ?thesis
    proof (cases "map_of m x")
      case None
      have eq: "topo_dfs m x (seen, out) = (insert x seen, out @ [x])"
        using False None by (simp add: topo_dfs.simps)
      have "insert x seen - set (out @ [x]) = seen - set out"
        using False by auto
      then show ?thesis unfolding eq using out xout by (auto simp: topo_basic_def)
    next
      case (Some ys)
      then have "lookup m x = ys" by (rule lookup_Some)
      then have px: "\<And>u. u \<in> set ys \<Longrightarrow> (u, x) \<in> ?R" by (simp add: preds_of_def)
      let ?s0 = "(insert x seen, out)"
      let ?r = "topo_loop m ys ?s0"
      have eq: "topo_dfs m x (seen, out) = (fst ?r, snd ?r @ [x])"
        using False Some by (simp add: topo_dfs.simps split: prod.splits)
      have "set (snd ?s0) \<subseteq> fst ?s0" "distinct (snd ?s0)" using out by auto
      from 1(1)[OF False Some this]
      have post: "topo_basic ?s0 ?r"
        and new: "fst ?r - insert x seen \<subseteq> set ys \<union> Domain ?R"
        by simp_all
      have invr: "set (snd ?r) \<subseteq> fst ?r" "distinct (snd ?r)"
        and sub: "insert x seen \<subseteq> fst ?r"
        using post by (simp_all add: topo_basic_def)
      have gray: "fst ?r - set (snd ?r) = insert x (seen - set out)"
        using post xout by (auto simp: topo_basic_def)
      have xr: "x \<in> fst ?r" "x \<notin> set (snd ?r)" using gray by auto
      have "topo_basic (seen, out) (fst ?r, snd ?r @ [x])"
        unfolding topo_basic_def
      proof (intro conjI)
        show "set (snd (fst ?r, snd ?r @ [x])) \<subseteq> fst (fst ?r, snd ?r @ [x])"
          using invr xr by auto
        show "distinct (snd (fst ?r, snd ?r @ [x]))" using invr xr by auto
        show "fst (seen, out) \<subseteq> fst (fst ?r, snd ?r @ [x])" using sub by auto
        show "fst (fst ?r, snd ?r @ [x]) - set (snd (fst ?r, snd ?r @ [x]))
                = fst (seen, out) - set (snd (seen, out))"
          using gray False by auto
      qed
      moreover have "fst ?r - seen \<subseteq> insert x (Domain ?R)"
      proof
        fix v assume v: "v \<in> fst ?r - seen"
        show "v \<in> insert x (Domain ?R)"
        proof (cases "v = x")
          case True then show ?thesis by simp
        next
          case False
          with v new have "v \<in> set ys \<or> v \<in> Domain ?R" by blast
          then show ?thesis using px by blast
        qed
      qed
      ultimately show ?thesis unfolding eq using xr(1) by simp
    qed
  qed
next
  case (2 m s)
  then show ?case by (simp add: topo_basic_def)
next
  case (3 m y ys s)
  let ?R = "preds_of m"
  let ?s1 = "topo_dfs m y s"
  let ?s2 = "topo_loop m ys ?s1"
  have eq: "topo_loop m (y # ys) s = ?s2" by simp
  from 3(1)[OF 3(3,4)]
  have p1: "topo_basic s ?s1" and y1: "y \<in> fst ?s1"
    and n1: "fst ?s1 - fst s \<subseteq> insert y (Domain ?R)"
    by simp_all
  have inv1: "set (snd ?s1) \<subseteq> fst ?s1" "distinct (snd ?s1)" and sub1: "fst s \<subseteq> fst ?s1"
    and gray1: "fst ?s1 - set (snd ?s1) = fst s - set (snd s)"
    using p1 by (simp_all add: topo_basic_def)
  from 3(2)[OF inv1]
  have p2: "topo_basic ?s1 ?s2" and y2: "set ys \<subseteq> fst ?s2"
    and n2: "fst ?s2 - fst ?s1 \<subseteq> set ys \<union> Domain ?R"
    by simp_all
  have inv2: "set (snd ?s2) \<subseteq> fst ?s2" "distinct (snd ?s2)" and sub2: "fst ?s1 \<subseteq> fst ?s2"
    and gray2: "fst ?s2 - set (snd ?s2) = fst ?s1 - set (snd ?s1)"
    using p2 by (simp_all add: topo_basic_def)
  have "topo_basic s ?s2"
    unfolding topo_basic_def using inv2 sub1 sub2 gray1 gray2 by auto
  moreover have "set (y # ys) \<subseteq> fst ?s2" using y1 y2 sub2 by auto
  moreover have "fst ?s2 - fst s \<subseteq> set (y # ys) \<union> Domain ?R"
    using n1 n2 by auto
  ultimately show ?case unfolding eq by simp
qed

lemma topo_loops_basic:
  shows "distinct (snd (topo_loop m seeds2 (topo_loop m seeds1 ({}, []))))"
    and "set seeds1 \<union> set seeds2 \<subseteq> set (snd (topo_loop m seeds2 (topo_loop m seeds1 ({}, []))))"
    and "set (snd (topo_loop m seeds2 (topo_loop m seeds1 ({}, []))))
           \<subseteq> set seeds1 \<union> set seeds2 \<union> Domain (preds_of m)"
proof -
  let ?R = "preds_of m"
  let ?s0 = "({} :: 'a set, [] :: 'a list)"
  let ?s1 = "topo_loop m seeds1 ?s0"
  let ?s2 = "topo_loop m seeds2 ?s1"
  have i0: "set (snd ?s0) \<subseteq> fst ?s0" "distinct (snd ?s0)" by simp_all
  from topo_loop_basic[OF i0]
  have p1: "topo_basic ?s0 ?s1" and y1: "set seeds1 \<subseteq> fst ?s1"
    and n1: "fst ?s1 - fst ?s0 \<subseteq> set seeds1 \<union> Domain ?R"
    by simp_all
  have inv1: "set (snd ?s1) \<subseteq> fst ?s1" "distinct (snd ?s1)"
    and gray1: "fst ?s1 - set (snd ?s1) = {}"
    using p1 by (simp_all add: topo_basic_def)
  from topo_loop_basic[OF inv1]
  have p2: "topo_basic ?s1 ?s2" and y2: "set seeds2 \<subseteq> fst ?s2"
    and n2: "fst ?s2 - fst ?s1 \<subseteq> set seeds2 \<union> Domain ?R"
    by simp_all
  have inv2: "set (snd ?s2) \<subseteq> fst ?s2" "distinct (snd ?s2)" and sub2: "fst ?s1 \<subseteq> fst ?s2"
    and gray2: "fst ?s2 - set (snd ?s2) = {}"
    using p2 gray1 by (simp_all add: topo_basic_def)
  have seen: "fst ?s2 = set (snd ?s2)"
    using inv2 gray2 by auto
  show "distinct (snd ?s2)" using inv2 by simp
  show "set seeds1 \<union> set seeds2 \<subseteq> set (snd ?s2)"
    using y1 y2 sub2 unfolding seen[symmetric] by blast
  show "set (snd ?s2) \<subseteq> set seeds1 \<union> set seeds2 \<union> Domain ?R"
    using n1 n2 unfolding seen[symmetric] by auto
qed

lemma topo_sort_fwd_vertices:
  assumes "digraph_inv g"
  shows "distinct (topo_sort_fwd g)" and "set (topo_sort_fwd g) = vertices g"
proof -
  have R: "preds_of (bck g) = edges g" using assms(1) by (simp add: edges_preds_bck)
  note p = topo_loops_basic[where m = "bck g" and ?seeds1.0 = "map fst (fwd g)"
      and ?seeds2.0 = "map fst (bck g)", folded topo_sort_fwd_def]
  show "distinct (topo_sort_fwd g)" by (rule p(1))
  have "Domain (edges g) \<subseteq> vertices g"
    using edges_vertices[OF assms(1)] by auto
  with p(2,3) show "set (topo_sort_fwd g) = vertices g"
    unfolding R by (auto simp: vertices_def)
qed


subsection \<open>Claim C2: the cascade of \<^verbatim>\<open>unload\<close>\<close>

text \<open>
  The pass as the specification words it (sections 4.4 and 9): attempt
  \<^verbatim>\<open>unsafe_unload\<close> on every member of a list in order, whatever the earlier attempts
  raised, and collect the errors.
\<close>

fun unload_each :: "string list \<Rightarrow> 'w state \<Rightarrow> exc list \<times> 'w state" where
  "unload_each [] st = ([], st)"
| "unload_each (p # ps) st =
     (case unsafe_unload p st of
        (es, st1) \<Rightarrow> (case unload_each ps st1 of (es', st2) \<Rightarrow> (es @ es', st2)))"

text \<open>The order in which \<^verbatim>\<open>unload(name)\<close> visits the plugins.\<close>

definition unload_order :: "string digraph \<Rightarrow> string \<Rightarrow> string list" where
  "unload_order d name =
     filter (\<lambda>dep. dep \<noteq> name) (topo_sort_fwd (subgraph_paths_to d name)) @ [name]"

lemma unload_each_append:
  "unload_each (xs @ ys) st =
     (case unload_each xs st of
        (es, st1) \<Rightarrow> (case unload_each ys st1 of (es', st2) \<Rightarrow> (es @ es', st2)))"
  by (induction xs arbitrary: st) (simp_all split: prod.splits)

lemma cont_unload_each:
  "cont_unload name gen st = unload_each (filter (\<lambda>dep. dep \<noteq> name) gen @ [name]) st"
proof (induction gen arbitrary: st)
  case Nil
  show ?case by (simp split: prod.splits)
next
  case (Cons dep gen)
  show ?case
  proof (cases "dep = name")
    case True
    then show ?thesis by (simp add: Cons.IH)
  next
    case False
    obtain es st1 where u: "unsafe_unload dep st = (es, st1)" by (cases "unsafe_unload dep st")
    show ?thesis using False
      by (cases es) (simp_all add: u Cons.IH split: prod.splits)
  qed
qed

lemma precedes_filter:
  assumes "precedes a b xs" "P a" "P b"
  shows "precedes a b (filter P xs)"
proof -
  from assms(1) obtain pre mid post where "xs = pre @ a # mid @ b # post"
    unfolding precedes_def by blast
  then have "filter P xs = filter P pre @ a # filter P mid @ b # filter P post"
    using assms(2,3) by simp
  then show ?thesis unfolding precedes_def by blast
qed

lemma precedes_append: "precedes a b xs \<Longrightarrow> precedes a b (xs @ ys)"
  unfolding precedes_def by (metis append.assoc append_Cons)

lemma precedes_last: "a \<in> set xs \<Longrightarrow> precedes a b (xs @ [b])"
  unfolding precedes_def by (metis split_list append.assoc append_Cons)

lemma unload_order_props:
  assumes "digraph_inv d"
  shows "distinct (unload_order d name)"
    and "set (unload_order d name) = {v. (v, name) \<in> (edges d)\<^sup>+} \<union> {name}"
    and "last (unload_order d name) = name"
    and "acyclic (edges d) \<Longrightarrow> (a, b) \<in> edges d \<Longrightarrow> b \<in> set (unload_order d name)
           \<Longrightarrow> precedes a b (unload_order d name)"
proof -
  let ?sub = "subgraph_paths_to d name"
  let ?T = "topo_sort_fwd ?sub"
  have inv: "digraph_inv ?sub" by (rule subgraph_paths_to_inv)
  have T: "distinct ?T" "set ?T = vertices ?sub"
    using topo_sort_fwd_vertices[OF inv] by simp_all
  have V: "vertices ?sub = {v. (v, name) \<in> (edges d)\<^sup>+} \<union> (if edges_to d name = [] then {} else {name})"
    by (rule subgraph_paths_to_vertices[OF assms])
  show "distinct (unload_order d name)"
    using T(1) by (simp add: unload_order_def)
  show S: "set (unload_order d name) = {v. (v, name) \<in> (edges d)\<^sup>+} \<union> {name}"
    unfolding unload_order_def using T(2) V by auto
  show "last (unload_order d name) = name"
    by (simp add: unload_order_def)
  show "precedes a b (unload_order d name)"
    if ac: "acyclic (edges d)" and e: "(a, b) \<in> edges d" and b: "b \<in> set (unload_order d name)"
  proof -
    have nn: "(name, name) \<notin> (edges d)\<^sup>+" using ac by (simp add: acyclic_def)
    from b S have bn: "(b, name) \<in> (edges d)\<^sup>*" by auto
    with e have an: "(a, name) \<in> (edges d)\<^sup>+" by (meson rtrancl_into_trancl2)
    with nn have a_ne: "a \<noteq> name" by auto
    from an T(2) V have aT: "a \<in> set ?T" by simp
    show ?thesis
    proof (cases "b = name")
      case True
      from aT a_ne have "a \<in> set (filter (\<lambda>dep. dep \<noteq> name) ?T)" by simp
      then show ?thesis unfolding unload_order_def True by (rule precedes_last)
    next
      case False
      have es: "(a, b) \<in> edges ?sub"
        using e bn by (simp add: subgraph_paths_to_edges[OF assms])
      have "edges ?sub \<subseteq> edges d"
        by (auto simp: subgraph_paths_to_edges[OF assms])
      with ac have "acyclic (edges ?sub)" by (rule acyclic_subset)
      from topo_sort_fwd_props(3)[OF inv this es] have "precedes a b ?T" .
      then have "precedes a b (filter (\<lambda>dep. dep \<noteq> name) ?T)"
        using a_ne False by (intro precedes_filter) simp_all
      then show ?thesis unfolding unload_order_def by (rule precedes_append)
    qed
  qed
qed

text \<open>
  C2: \<^verbatim>\<open>unload(name)\<close> attempts \<^verbatim>\<open>unsafe_unload\<close> on every member of
  \<open>unload_order\<close>, in that order, each in the state its predecessors left and whatever they
  raised, and the errors of all attempts propagate together. The members are \<open>name\<close> and
  the plugins with a path to \<open>name\<close>, each once, \<open>name\<close> last; when the graph is acyclic
  every member comes after all plugins that depend on it.
\<close>

theorem unload_cascade:
  assumes "digraph_inv (deps st)"
  shows "unload name st = unload_each (unload_order (deps st) name) st \<and>
         (\<forall>pre p post. unload_order (deps st) name = pre @ p # post \<longrightarrow>
            fst (unload name st) =
              fst (unload_each pre st) @ fst (unsafe_unload p (snd (unload_each pre st)))
                @ fst (unload_each post (snd (unsafe_unload p (snd (unload_each pre st)))))) \<and>
         distinct (unload_order (deps st) name) \<and>
         set (unload_order (deps st) name) = {v. (v, name) \<in> (edges (deps st))\<^sup>+} \<union> {name} \<and>
         last (unload_order (deps st) name) = name \<and>
         (acyclic (edges (deps st)) \<longrightarrow>
            (\<forall>(a, b)\<in>edges (deps st). b \<in> set (unload_order (deps st) name) \<longrightarrow>
               precedes a b (unload_order (deps st) name)))"
proof -
  have eq: "unload name st = unload_each (unload_order (deps st) name) st"
    by (simp add: unload_def unload_order_def cont_unload_each)
  have "fst (unload name st) =
              fst (unload_each pre st) @ fst (unsafe_unload p (snd (unload_each pre st)))
                @ fst (unload_each post (snd (unsafe_unload p (snd (unload_each pre st)))))"
    if "unload_order (deps st) name = pre @ p # post" for pre p post
    unfolding eq that by (simp add: unload_each_append split: prod.splits)
  then have parts: "\<forall>pre p post. unload_order (deps st) name = pre @ p # post \<longrightarrow>
            fst (unload name st) =
              fst (unload_each pre st) @ fst (unsafe_unload p (snd (unload_each pre st)))
                @ fst (unload_each post (snd (unsafe_unload p (snd (unload_each pre st)))))"
    by blast
  note p = unload_order_props[OF assms, where name = name]
  have ord: "acyclic (edges (deps st)) \<longrightarrow>
            (\<forall>(a, b)\<in>edges (deps st). b \<in> set (unload_order (deps st) name) \<longrightarrow>
               precedes a b (unload_order (deps st) name))"
    using p(4) by blast
  from eq parts p(1,2,3) ord show ?thesis by (intro conjI)
qed

text \<open>
  The scenario: the setup of plugin \<open>a\<close> referenced plugin \<open>b\<close>, and the finalizer of \<open>a\<close>
  raises. \<^verbatim>\<open>unload('plugins.b')\<close> finalizes \<open>a\<close> first, then \<open>b\<close>; both are unloaded and
  the error of \<open>a\<close> propagates.
\<close>

theorem unload_cascade_witness:
  "(let st = \<lparr>modules = [''plugins.a'' \<mapsto> 0, ''plugins.b'' \<mapsto> 1],
              deps = add_edge Digraph ''plugins.a'' ''plugins.b'',
              finalizers = [''plugins.a'' \<mapsto> [\<lambda>reg w. (Some (PluginError ''a''), w @ [''a''])],
                            ''plugins.b'' \<mapsto> [\<lambda>reg w. (None, w @ [''b''])]],
              import_stack = [], world = [], next_module = 2\<rparr>
    in digraph_inv (deps st) \<and>
       unload_order (deps st) ''plugins.b'' = [''plugins.a'', ''plugins.b''] \<and>
       fst (unload ''plugins.b'' st) = [PluginError ''a''] \<and>
       world (snd (unload ''plugins.b'' st)) = [''a'', ''b''] \<and>
       modules (snd (unload ''plugins.b'' st)) = Map.empty \<and>
       deps (snd (unload ''plugins.b'' st)) = \<lparr>fwd = [], bck = [(''plugins.b'', [])]\<rparr>)"
proof -
  let ?st = "\<lparr>modules = [''plugins.a'' \<mapsto> 0, ''plugins.b'' \<mapsto> 1],
              deps = add_edge Digraph ''plugins.a'' ''plugins.b'',
              finalizers = [''plugins.a'' \<mapsto> [\<lambda>reg w. (Some (PluginError ''a''), w @ [''a''])],
                            ''plugins.b'' \<mapsto> [\<lambda>reg w. (None, w @ [''b''])]],
              import_stack = [], world = ([] :: string list), next_module = 2\<rparr>"
  have h: "digraph_inv (deps ?st)" by (simp add: digraph_inv_add_edge digraph_inv_Digraph)
  have o: "unload_order (deps ?st) ''plugins.b'' = [''plugins.a'', ''plugins.b'']"
    by (simp add: unload_order_def subgraph_paths_to_def sub_dfs.simps topo_sort_fwd_def
        topo_dfs.simps add_edge_def Digraph_def dict_add_def set_add_def)
  have p: "is_plugin ''plugins.a''" "is_plugin ''plugins.b''"
    by (simp_all add: is_plugin_def plugins_namespace_def)
  from unload_cascade[OF h, of "''plugins.b''"]
  have "unload ''plugins.b'' ?st = unload_each [''plugins.a'', ''plugins.b''] ?st"
    unfolding o by blast
  also have "\<dots> = ([PluginError ''a''],
      ?st\<lparr>world := [''a'', ''b''], modules := Map.empty, finalizers := Map.empty,
          deps := \<lparr>fwd = [], bck = [(''plugins.b'', [])]\<rparr>\<rparr>)"
    by (simp add: unsafe_unload_def p finalize_module_def del_edges_from_def add_edge_def
        Digraph_def dict_add_def set_add_def set_discard_def fun_upd_def fun_eq_iff)
  finally have u: "unload ''plugins.b'' ?st = ([PluginError ''a''],
      ?st\<lparr>world := [''a'', ''b''], modules := Map.empty, finalizers := Map.empty,
          deps := \<lparr>fwd = [], bck = [(''plugins.b'', [])]\<rparr>\<rparr>)" .
  show ?thesis unfolding Let_def u using h o by simp
qed

subsection \<open>Claim C7: the exit hook\<close>

text \<open>
  C7 says that the exit hook unloads every plugin that is loaded. \<^verbatim>\<open>atexit_unload\<close>
  iterates over \<^verbatim>\<open>deps.topo_sort_fwd()\<close>, the vertices of the dependency graph, and the
  graph stores no vertex without an edge: a loaded plugin that imported no plugin and
  that no plugin imported is not visited. Here \<open>plugins.p\<close> is loaded and has a
  finalizer; the hook returns without running it and leaves the module loaded.
\<close>

theorem atexit_unload_skips_plugin_without_edges:
  "atexit_unload
     \<lparr>modules = [''plugins.p'' \<mapsto> 0], deps = Digraph,
      finalizers = [''plugins.p'' \<mapsto> [\<lambda>reg w. (None, w @ [''finalized p''])]],
      import_stack = [], world = [], next_module = 1\<rparr>
   = ([],
      \<lparr>modules = [''plugins.p'' \<mapsto> 0], deps = Digraph,
       finalizers = [''plugins.p'' \<mapsto> [\<lambda>reg w. (None, w @ [''finalized p''])]],
       import_stack = [], world = [], next_module = 1\<rparr>)"
  by (simp add: atexit_unload_def topo_sort_fwd_Digraph)

text \<open>
  The keys that \<^verbatim>\<open>del_edges_from\<close> leaves behind (claim C4) are visited instead: after
  \<open>plugins.a\<close>, which imported \<open>plugins.b\<close>, and then \<open>plugins.b\<close> have been unloaded, the
  hook still tries to unload \<open>plugins.b\<close> and raises \<^verbatim>\<open>KeyError\<close>.
\<close>

lemma atexit_unload_stale_key:
  "fst (atexit_unload
     \<lparr>modules = Map.empty, deps = \<lparr>fwd = [], bck = [(''plugins.b'', [])]\<rparr>,
      finalizers = Map.empty, import_stack = [], world = (), next_module = 2\<rparr>)
   = [KeyError ''plugins.b'']"
  by (simp add: atexit_unload_def topo_sort_fwd_def topo_dfs.simps unsafe_unload_def
      is_plugin_def plugins_namespace_def finalize_module_def del_edges_from_def)

subsection \<open>Claim C1: the cascade of \<^verbatim>\<open>reload\<close>\<close>











































end
